theory Spec2Isabelle
  imports Complex_Main "HOL-Library.Word"
begin

section \<open>Data model\<close>

text \<open>
  The numeric core of the repository works on numpy arrays of float64. A 2D array is
  modelled as the list of its rows. In the DCT, quantization and wavelet code the real
  numbers stand for float64, so the statements about them are about the arithmetic the
  code writes down, computed exactly. Where the outcome depends on how float64 treats
  zero, infinity and \<open>nan\<close> (the thresholds and the metrics), values are \<open>npfloat\<close>, and
  in the metrics the float64 operations themselves are an argument of the model.
  Python exceptions are values of \<open>py_error\<close>; a function that can raise returns
  \<open>py_error + 'a\<close>.
\<close>

type_synonym grid = "real list list"

datatype py_error =
  ZeroDivisionError | ValueError | IndexError | TypeError | OverflowError | InvalidParameter

definition height :: "'a list list \<Rightarrow> nat" where
  "height g = length g"

definition width :: "'a list list \<Rightarrow> nat" where
  "width g = (case g of [] \<Rightarrow> 0 | r # _ \<Rightarrow> length r)"

text \<open>A list of rows is an array of shape \<open>(h, w)\<close> when it has \<open>h\<close> rows of length \<open>w\<close>.\<close>

definition has_shape :: "'a list list \<Rightarrow> nat \<Rightarrow> nat \<Rightarrow> bool" where
  "has_shape g h w = (length g = h \<and> list_all (\<lambda>r. length r = w) g)"

section \<open>dct.py: the quantization table\<close>

text \<open>The table \<open>Q50\<close> of \<open>quantize_dct\<close> and \<open>dequantize_dct\<close> (the same literal in both).\<close>

definition Q50 :: grid where
  "Q50 =
   [[16, 11, 10, 16, 24, 40, 51, 61],
    [12, 12, 14, 19, 26, 58, 60, 55],
    [14, 13, 16, 24, 40, 57, 69, 56],
    [14, 17, 22, 29, 51, 87, 80, 62],
    [18, 22, 37, 56, 68, 109, 103, 77],
    [24, 35, 55, 64, 81, 104, 113, 92],
    [49, 64, 78, 87, 103, 121, 120, 101],
    [72, 92, 95, 98, 112, 100, 103, 99]]"

text \<open>
  \<open>if quality < 50: scale = 5000 / quality else: scale = 200 - 2 * quality\<close>.
  \<open>quality\<close> is a Python int; \<open>5000 / 0\<close> raises.
\<close>

definition quality_scale :: "int \<Rightarrow> py_error + real" where
  "quality_scale quality =
     (if quality < 50
      then (if quality = 0 then Inl ZeroDivisionError else Inr (5000 / real_of_int quality))
      else Inr (real_of_int (200 - 2 * quality)))"

text \<open>Elementwise array arithmetic with a scalar, \<open>np.floor\<close> and \<open>np.clip\<close>.\<close>

definition arr_map :: "('a \<Rightarrow> 'b) \<Rightarrow> 'a list list \<Rightarrow> 'b list list" where
  "arr_map f a = map (map f) a"

definition np_floor :: "grid \<Rightarrow> grid" where
  "np_floor a = arr_map (\<lambda>x. real_of_int \<lfloor>x\<rfloor>) a"

definition np_clip :: "grid \<Rightarrow> real \<Rightarrow> real \<Rightarrow> grid" where
  "np_clip a lo hi = arr_map (\<lambda>x. min (max x lo) hi) a"

text \<open>\<open>Q = np.clip(np.floor((Q50 * scale + 50) / 100), 1, 255)\<close>\<close>

definition scaled_table :: "real \<Rightarrow> grid" where
  "scaled_table scale =
     np_clip (np_floor (arr_map (\<lambda>x. x / 100) (arr_map (\<lambda>x. x + 50) (arr_map (\<lambda>x. x * scale) Q50)))) 1 255"

definition quant_table :: "int \<Rightarrow> py_error + grid" where
  "quant_table quality =
     (case quality_scale quality of
        Inl e \<Rightarrow> Inl e
      | Inr scale \<Rightarrow> Inr (scaled_table scale))"

text \<open>
  The specification's words for one entry of the table:
  scale factor \<open>5000/quality\<close> if \<open>quality < 50\<close> else \<open>200 - 2*quality\<close>, entry
  \<open>clamp(floor((base*scale+50)/100), 1, 255)\<close>.
\<close>

definition spec_scale :: "int \<Rightarrow> real" where
  "spec_scale quality =
     (if quality < 50 then 5000 / real_of_int quality else 200 - 2 * real_of_int quality)"

definition spec_clamp :: "int \<Rightarrow> int \<Rightarrow> int \<Rightarrow> int" where
  "spec_clamp x lo hi = (if x < lo then lo else if hi < x then hi else x)"

definition spec_entry :: "real \<Rightarrow> int \<Rightarrow> real" where
  "spec_entry base quality =
     real_of_int (spec_clamp \<lfloor>(base * spec_scale quality + 50) / 100\<rfloor> 1 255)"

section \<open>float64 results that may be infinite or not a number\<close>

text \<open>
  numpy's float64 operations do not raise on a zero divisor, on the logarithm of zero or
  on an empty mean: they return \<open>inf\<close>, \<open>-inf\<close> or \<open>nan\<close>. Where the code can produce
  such a result its value is an \<open>npfloat\<close>; the operations below follow IEEE 754 on the
  special values and are exact on the finite ones.
\<close>

datatype npfloat = Fin real | PInf | NInf | NaN

fun fl_mul :: "npfloat \<Rightarrow> npfloat \<Rightarrow> npfloat" where
  "fl_mul (Fin a) (Fin b) = Fin (a * b)"
| "fl_mul NaN _ = NaN"
| "fl_mul _ NaN = NaN"
| "fl_mul (Fin a) PInf = (if 0 < a then PInf else if a < 0 then NInf else NaN)"
| "fl_mul (Fin a) NInf = (if 0 < a then NInf else if a < 0 then PInf else NaN)"
| "fl_mul PInf (Fin b) = (if 0 < b then PInf else if b < 0 then NInf else NaN)"
| "fl_mul NInf (Fin b) = (if 0 < b then NInf else if b < 0 then PInf else NaN)"
| "fl_mul PInf PInf = PInf"
| "fl_mul PInf NInf = NInf"
| "fl_mul NInf PInf = NInf"
| "fl_mul NInf NInf = PInf"

fun fl_div :: "npfloat \<Rightarrow> npfloat \<Rightarrow> npfloat" where
  "fl_div (Fin a) (Fin b) =
     (if b \<noteq> 0 then Fin (a / b) else if 0 < a then PInf else if a < 0 then NInf else NaN)"
| "fl_div NaN _ = NaN"
| "fl_div _ NaN = NaN"
| "fl_div (Fin a) PInf = Fin 0"
| "fl_div (Fin a) NInf = Fin 0"
| "fl_div PInf (Fin b) = (if 0 \<le> b then PInf else NInf)"
| "fl_div NInf (Fin b) = (if 0 \<le> b then NInf else PInf)"
| "fl_div PInf PInf = NaN"
| "fl_div PInf NInf = NaN"
| "fl_div NInf PInf = NaN"
| "fl_div NInf NInf = NaN"



fun fl_log10 :: "npfloat \<Rightarrow> npfloat" where
  "fl_log10 (Fin a) = (if 0 < a then Fin (log 10 a) else if a = 0 then NInf else NaN)"
| "fl_log10 PInf = PInf"
| "fl_log10 NInf = NaN"
| "fl_log10 NaN = NaN"





fun fl_add :: "npfloat \<Rightarrow> npfloat \<Rightarrow> npfloat" where
  "fl_add (Fin a) (Fin b) = Fin (a + b)"
| "fl_add NaN _ = NaN"
| "fl_add _ NaN = NaN"
| "fl_add (Fin a) PInf = PInf"
| "fl_add (Fin a) NInf = NInf"
| "fl_add PInf (Fin b) = PInf"
| "fl_add NInf (Fin b) = NInf"
| "fl_add PInf PInf = PInf"
| "fl_add PInf NInf = NaN"
| "fl_add NInf PInf = NaN"
| "fl_add NInf NInf = NInf"

section \<open>denoising.py: compute\_threshold\<close>


section \<open>Elementwise operations on two arrays\<close>

text \<open>
  numpy applies a binary operator to two 2D arrays elementwise after broadcasting: along
  each axis the lengths must be equal or one of them 1 (which is then repeated),
  otherwise the operation raises ValueError. A list of rows cannot tell the shapes
  \<open>(0, w)\<close> apart: an array with no rows is taken to have shape \<open>(0, 0)\<close>.
\<close>

definition bc_ok :: "nat \<Rightarrow> nat \<Rightarrow> bool" where
  "bc_ok m n = (m = n \<or> m = 1 \<or> n = 1)"

definition bc_len :: "nat \<Rightarrow> nat \<Rightarrow> nat" where
  "bc_len m n = (if m = 1 then n else m)"

definition stretch :: "nat \<Rightarrow> 'a list \<Rightarrow> 'a list" where
  "stretch n xs = (if length xs = 1 then replicate n (hd xs) else xs)"

definition np_binop ::
  "('a \<Rightarrow> 'b \<Rightarrow> 'c) \<Rightarrow> 'a list list \<Rightarrow> 'b list list \<Rightarrow> py_error + 'c list list" where
  "np_binop f a b =
     (if bc_ok (height a) (height b) \<and> bc_ok (width a) (width b)
      then (let h = bc_len (height a) (height b); w = bc_len (width a) (width b)
            in Inr (map2 (\<lambda>ra rb. map2 f (stretch w ra) (stretch w rb)) (stretch h a) (stretch h b)))
      else Inl ValueError)"

section \<open>metrics.py: psnr and snr\<close>

text \<open>
  Both functions branch on whether a float64 mean of squares is exactly zero, and
  float64 squares underflow, sums round and quotients overflow. So the float64
  operations they use are an argument of the model: the difference of two finite
  values, the square, the mean of a non-empty array, the quotient, \<open>np.log10\<close>, the
  product, and Python's \<open>max_val ** 2\<close>, which raises OverflowError instead of returning
  \<open>inf\<close>. Whatever these operations return, the model says what \<open>psnr\<close> and \<open>snr\<close> do
  with it.
\<close>

record float64_ops =
  f_sub :: "real \<Rightarrow> real \<Rightarrow> npfloat"
  f_square :: "npfloat \<Rightarrow> npfloat"
  f_mean :: "npfloat list \<Rightarrow> npfloat"
  f_div :: "npfloat \<Rightarrow> npfloat \<Rightarrow> npfloat"
  f_log10 :: "npfloat \<Rightarrow> npfloat"
  f_mul :: "npfloat \<Rightarrow> npfloat \<Rightarrow> npfloat"
  f_pow2 :: "real \<Rightarrow> py_error + npfloat"

text \<open>\<open>np.mean\<close> of the entries of an array; the mean of no entries is \<open>nan\<close>.\<close>

definition np_mean :: "float64_ops \<Rightarrow> npfloat list \<Rightarrow> npfloat" where
  "np_mean F xs = (if xs = [] then NaN else f_mean F xs)"

text \<open>
  \<open>mse = np.mean((original - compressed) ** 2)\<close>;
  \<open>if mse == 0: return float('inf')\<close>;
  \<open>return 10 * np.log10((max_val ** 2) / mse)\<close>.
\<close>

definition psnr :: "float64_ops \<Rightarrow> grid \<Rightarrow> grid \<Rightarrow> real \<Rightarrow> py_error + npfloat" where
  "psnr F original compressed max_val =
     (case np_binop (f_sub F) original compressed of
        Inl e \<Rightarrow> Inl e
      | Inr d \<Rightarrow>
          (let mse = np_mean F (concat (arr_map (f_square F) d))
           in if mse = Fin 0 then Inr PInf
              else (case f_pow2 F max_val of
                      Inl e \<Rightarrow> Inl e
                    | Inr p \<Rightarrow> Inr (f_mul F (Fin 10) (f_log10 F (f_div F p mse))))))"

text \<open>
  \<open>signal_power = np.mean(signal ** 2)\<close>; \<open>noise = noisy - signal\<close>;
  \<open>noise_power = np.mean(noise ** 2)\<close>;
  \<open>if noise_power == 0: return float('inf')\<close>;
  \<open>return 10 * np.log10(signal_power / noise_power)\<close>.
\<close>

definition snr :: "float64_ops \<Rightarrow> grid \<Rightarrow> grid \<Rightarrow> py_error + npfloat" where
  "snr F signal noisy =
     (let signal_power = np_mean F (concat (arr_map (\<lambda>x. f_square F (Fin x)) signal))
      in case np_binop (f_sub F) noisy signal of
           Inl e \<Rightarrow> Inl e
         | Inr noise \<Rightarrow>
             (let noise_power = np_mean F (concat (arr_map (f_square F) noise))
              in if noise_power = Fin 0 then Inr PInf
                 else Inr (f_mul F (Fin 10) (f_log10 F (f_div F signal_power noise_power)))))"

text \<open>
  What the statements about \<open>psnr\<close> and \<open>snr\<close> rely on, all of it true of IEEE 754
  float64 and of numpy: a finite value minus itself is 0, the square of 0 is 0, the mean
  of a non-empty array of zeros is 0, and \<open>255.0 ** 2\<close> is 65025.
\<close>

definition float64_laws :: "float64_ops \<Rightarrow> bool" where
  "float64_laws F =
     ((\<forall>x. f_sub F x x = Fin 0)
      \<and> f_square F (Fin 0) = Fin 0
      \<and> (\<forall>n. f_mean F (replicate (Suc n) (Fin 0)) = Fin 0)
      \<and> f_pow2 F 255 = Inr (Fin 65025))"

text \<open>
  The operations without rounding: exact on finite values, IEEE 754 on infinity and
  \<open>nan\<close>. They satisfy the laws, and they are what float64 computes wherever no
  rounding, overflow or underflow occurs.
\<close>

definition exact_ops :: float64_ops where
  "exact_ops =
     \<lparr>f_sub = (\<lambda>x y. Fin (x - y)),
      f_square = (\<lambda>x. fl_mul x x),
      f_mean = (\<lambda>xs. fl_div (foldr fl_add xs (Fin 0)) (Fin (real (length xs)))),
      f_div = fl_div,
      f_log10 = fl_log10,
      f_mul = fl_mul,
      f_pow2 = (\<lambda>x. Inr (Fin (x ^ 2)))\<rparr>"

text \<open>
  Operations that are exact except that a square below \<open>2^-1075\<close> is 0, as a float64
  square is when it underflows (the smallest positive float64 is \<open>2^-1074\<close>). They
  satisfy the laws too.
\<close>

definition underflow_ops :: float64_ops where
  "underflow_ops =
     exact_ops\<lparr>f_square :=
       (\<lambda>x. case x of
               Fin d \<Rightarrow> if d * d < 1 / 2 ^ 1075 then Fin 0 else Fin (d * d)
             | _ \<Rightarrow> fl_mul x x)\<rparr>"

text \<open>
  The quantities the specification names, as the code computes them for two arrays of
  the same shape: the mean squared difference and the power of an array.
\<close>

definition computed_mse :: "float64_ops \<Rightarrow> grid \<Rightarrow> grid \<Rightarrow> npfloat" where
  "computed_mse F a b =
     np_mean F (concat (map2 (map2 (\<lambda>x y. f_square F (f_sub F x y))) a b))"

definition computed_power :: "float64_ops \<Rightarrow> grid \<Rightarrow> npfloat" where
  "computed_power F a = np_mean F (concat (map (map (\<lambda>x. f_square F (Fin x))) a))"

section \<open>dct.py: the block loop shared by the four block functions\<close>

text \<open>
  \<open>block_dct\<close>, \<open>block_idct\<close>, \<open>quantize_dct\<close> and \<open>dequantize_dct\<close> share one skeleton:
  pad the array at the bottom and the right to a multiple of \<open>block_size\<close>, start from
  \<open>result = np.zeros_like(img)\<close>, and
  \<^verbatim>\<open>
    for i in range(0, img.shape[0], block_size):
        for j in range(0, img.shape[1], block_size):
            block = img[i:i+block_size, j:j+block_size]
            result[i:i+block_size, j:j+block_size] = <function of block>
    return result[:h, :w]
  \<close>
  The loops are folds over the index lists that pass the array \<open>result\<close> along and stop
  at the first error. \<open>block_size\<close> is a size: a natural number (0 makes
  \<open>h % block_size\<close> raise).
\<close>

text \<open>\<open>(block_size - n % block_size) % block_size\<close>\<close>

definition pad_amount :: "nat \<Rightarrow> nat \<Rightarrow> nat" where
  "pad_amount n block_size = (block_size - n mod block_size) mod block_size"

text \<open>
  \<open>np.pad(img, ((0, pad_h), (0, pad_w)), mode='edge')\<close> repeats the last column and the
  last row; \<open>mode='constant'\<close> appends zeros.
\<close>

definition np_pad_edge :: "grid \<Rightarrow> nat \<Rightarrow> nat \<Rightarrow> grid" where
  "np_pad_edge img pad_h pad_w =
     (let rows = map (\<lambda>r. r @ replicate pad_w (last r)) img
      in rows @ replicate pad_h (last rows))"

definition np_pad_constant :: "grid \<Rightarrow> nat \<Rightarrow> nat \<Rightarrow> grid" where
  "np_pad_constant img pad_h pad_w =
     map (\<lambda>r. r @ replicate pad_w 0) img @ replicate pad_h (replicate (width img + pad_w) 0)"

definition zeros_like :: "grid \<Rightarrow> grid" where
  "zeros_like img = arr_map (\<lambda>_. 0) img"

text \<open>\<open>range(0, stop, step)\<close> for a positive step.\<close>

definition py_range :: "nat \<Rightarrow> nat \<Rightarrow> nat list" where
  "py_range stop step = map (\<lambda>k. k * step) [0..<(stop + step - 1) div step]"

text \<open>\<open>img[i:i+bs, j:j+bs]\<close>: slices stop at the end of the array.\<close>

definition get_block :: "'a list list \<Rightarrow> nat \<Rightarrow> nat \<Rightarrow> nat \<Rightarrow> 'a list list" where
  "get_block img i j bs = map (\<lambda>r. take bs (drop j r)) (take bs (drop i img))"

text \<open>
  \<open>result[i:i+bs, j:j+bs] = v\<close>: the entry \<open>(r, c)\<close> of the slice becomes
  \<open>v[r - i][c - j]\<close>. numpy raises ValueError when the shape of \<open>v\<close> does not fit the
  slice. (It would first broadcast a \<open>v\<close> with an axis of length 1; the values assigned
  in this file have the shape of the block or of the 8 by 8 table, so that case does not
  arise except where the shapes are equal.)
\<close>

definition set_block :: "grid \<Rightarrow> nat \<Rightarrow> nat \<Rightarrow> nat \<Rightarrow> grid \<Rightarrow> py_error + grid" where
  "set_block result i j bs v =
     (if has_shape v (min (i + bs) (height result) - i) (min (j + bs) (width result) - j)
      then Inr (map (\<lambda>r. if i \<le> r \<and> r < i + bs
                          then map (\<lambda>c. if j \<le> c \<and> c < j + bs then v ! (r - i) ! (c - j)
                                         else result ! r ! c) [0..<length (result ! r)]
                          else result ! r) [0..<length result])
      else Inl ValueError)"

fun for_each :: "('a \<Rightarrow> 's \<Rightarrow> py_error + 's) \<Rightarrow> 'a list \<Rightarrow> 's \<Rightarrow> py_error + 's" where
  "for_each body [] s = Inr s"
| "for_each body (x # xs) s =
     (case body x s of Inl e \<Rightarrow> Inl e | Inr s' \<Rightarrow> for_each body xs s')"

definition block_loop :: "nat \<Rightarrow> (grid \<Rightarrow> py_error + grid) \<Rightarrow> grid \<Rightarrow> grid \<Rightarrow> py_error + grid" where
  "block_loop bs f img result0 =
     for_each (\<lambda>i result.
        for_each (\<lambda>j result.
           case f (get_block img i j bs) of
             Inl e \<Rightarrow> Inl e
           | Inr v \<Rightarrow> set_block result i j bs v)
        (py_range (width img) bs) result)
     (py_range (height img) bs) result0"

text \<open>\<open>result[:h, :w]\<close>\<close>

definition crop :: "'a list list \<Rightarrow> nat \<Rightarrow> nat \<Rightarrow> 'a list list" where
  "crop result h w = map (take w) (take h result)"

section \<open>dct.py: quantize\_dct and dequantize\_dct\<close>

text \<open>
  \<open>np.round\<close> rounds to the nearest integer and a tie to the even one; the result is
  still a float. \<open>astype(np.int16)\<close> converts towards zero; numpy leaves a value outside
  the int16 range to the C compiler, and on the usual platforms the conversion goes
  through a 32-bit integer: a value in the int32 range wraps around modulo \<open>2^16\<close>, a
  value outside it becomes 0. \<open>astype(np.float64)\<close> of an int16 array reads each entry
  as a signed number.
\<close>

definition round_half_even :: "real \<Rightarrow> int" where
  "round_half_even x =
     (let n = \<lfloor>x\<rfloor>; d = x - real_of_int n
      in if d < 1 / 2 then n else if 1 / 2 < d then n + 1 else if even n then n else n + 1)"

definition np_round :: "grid \<Rightarrow> grid" where
  "np_round a = arr_map (\<lambda>x. real_of_int (round_half_even x)) a"

definition cast_int16 :: "real \<Rightarrow> 16 word" where
  "cast_int16 x =
     (let n = (if 0 \<le> x then \<lfloor>x\<rfloor> else \<lceil>x\<rceil>)
      in if - 2147483648 \<le> n \<and> n \<le> 2147483647 then word_of_int n else 0)"

definition astype_int16 :: "grid \<Rightarrow> 16 word list list" where
  "astype_int16 a = arr_map cast_int16 a"

definition astype_float64 :: "16 word list list \<Rightarrow> grid" where
  "astype_float64 a = arr_map (\<lambda>x. real_of_int (sint x)) a"

text \<open>
  \<open>quantize_dct(coeffs, quality, block_size)\<close>: the table first, then the block loop with
  \<open>np.round(block / Q)\<close>, then \<open>result[:h, :w].astype(np.int16)\<close>. \<open>block / Q\<close> broadcasts
  the block against the 8 by 8 table.
\<close>

definition quantize_dct :: "grid \<Rightarrow> int \<Rightarrow> nat \<Rightarrow> py_error + 16 word list list" where
  "quantize_dct coeffs quality block_size =
     (case quant_table quality of
        Inl e \<Rightarrow> Inl e
      | Inr Q \<Rightarrow>
          if block_size = 0 then Inl ZeroDivisionError
          else
            (let h = height coeffs; w = width coeffs;
                 pad_h = pad_amount h block_size; pad_w = pad_amount w block_size;
                 img = (if pad_h \<noteq> 0 \<or> pad_w \<noteq> 0 then np_pad_constant coeffs pad_h pad_w
                        else coeffs)
             in case block_loop block_size
                       (\<lambda>block. case np_binop (/) block Q of
                                   Inl e \<Rightarrow> Inl e
                                 | Inr d \<Rightarrow> Inr (np_round d))
                       img (zeros_like img) of
                  Inl e \<Rightarrow> Inl e
                | Inr result \<Rightarrow> Inr (astype_int16 (crop result h w))))"

text \<open>\<open>dequantize_dct(quantized, quality, block_size)\<close>: the same, with \<open>block * Q\<close>.\<close>

definition dequantize_dct :: "16 word list list \<Rightarrow> int \<Rightarrow> nat \<Rightarrow> py_error + grid" where
  "dequantize_dct quantized quality block_size =
     (case quant_table quality of
        Inl e \<Rightarrow> Inl e
      | Inr Q \<Rightarrow>
          if block_size = 0 then Inl ZeroDivisionError
          else
            (let img0 = astype_float64 quantized;
                 h = height img0; w = width img0;
                 pad_h = pad_amount h block_size; pad_w = pad_amount w block_size;
                 img = (if pad_h \<noteq> 0 \<or> pad_w \<noteq> 0 then np_pad_constant img0 pad_h pad_w
                        else img0)
             in case block_loop block_size (\<lambda>block. np_binop (*) block Q) img (zeros_like img) of
                  Inl e \<Rightarrow> Inl e
                | Inr result \<Rightarrow> Inr (crop result h w)))"

section \<open>dct.py: the block DCT\<close>

text \<open>
  Modelled from the spec: the library transform \<open>scipy.fftpack.dct(x, norm='ortho')\<close>
  and its inverse \<open>idct(x, norm='ortho')\<close> are not part of the repository; the spec
  names them as the type-II DCT with orthonormal scaling and its inverse. Along the last
  axis of its argument (each row of a 2D array), for a row \<open>x\<close> of length \<open>N\<close>,
  \<open>y[k] = f * 2 * sum(x[n] * cos(pi*k*(2n+1)/(2N)), n = 0..N-1)\<close> with
  \<open>f = sqrt(1/(4N))\<close> for \<open>k = 0\<close> and \<open>sqrt(1/(2N))\<close> otherwise, and the inverse is
  \<open>x[n] = y[0]/sqrt(N) + sqrt(2/N) * sum(y[k] * cos(pi*k*(2n+1)/(2N)), k = 1..N-1)\<close>.
\<close>

definition dct_ortho :: "real list \<Rightarrow> real list" where
  "dct_ortho x =
     (let N = length x
      in map (\<lambda>k. (if k = 0 then sqrt (1 / (4 * real N)) else sqrt (1 / (2 * real N)))
                   * (2 * (\<Sum>n<N. x ! n * cos (pi * real k * (2 * real n + 1) / (2 * real N)))))
           [0..<N])"

definition idct_ortho :: "real list \<Rightarrow> real list" where
  "idct_ortho y =
     (let N = length y
      in map (\<lambda>n. y ! 0 / sqrt (real N)
                   + sqrt (2 / real N)
                     * (\<Sum>k\<in>{1..<N}. y ! k * cos (pi * real k * (2 * real n + 1) / (2 * real N))))
           [0..<N])"

definition np_dct :: "grid \<Rightarrow> grid" where
  "np_dct a = map dct_ortho a"

definition np_idct :: "grid \<Rightarrow> grid" where
  "np_idct a = map idct_ortho a"

text \<open>
  \<open>DCT2D(block) = dct(dct(block.T, norm='ortho').T, norm='ortho')\<close> and
  \<open>IDCT2D(coeffs) = idct(idct(coeffs.T, norm='ortho').T, norm='ortho')\<close>;
  \<open>.T\<close> is the transpose.
\<close>

definition DCT2D :: "grid \<Rightarrow> grid" where
  "DCT2D block = np_dct (transpose (np_dct (transpose block)))"

definition IDCT2D :: "grid \<Rightarrow> grid" where
  "IDCT2D coeffs = np_idct (transpose (np_idct (transpose coeffs)))"

text \<open>
  \<open>block_dct(image, block_size)\<close>: edge padding, the loop with \<open>DCT2D(block - 128)\<close>, the
  crop to the shape of the input.
\<close>

definition block_dct :: "grid \<Rightarrow> nat \<Rightarrow> py_error + grid" where
  "block_dct image' block_size =
     (if block_size = 0 then Inl ZeroDivisionError
      else
        (let h = height image'; w = width image';
             pad_h = pad_amount h block_size; pad_w = pad_amount w block_size;
             img = (if pad_h \<noteq> 0 \<or> pad_w \<noteq> 0 then np_pad_edge image' pad_h pad_w else image')
         in case block_loop block_size
                   (\<lambda>block. Inr (DCT2D (arr_map (\<lambda>x. x - 128) block)))
                   img (zeros_like img) of
              Inl e \<Rightarrow> Inl e
            | Inr result \<Rightarrow> Inr (crop result h w)))"

text \<open>
  \<open>block_idct(coeffs, block_size)\<close>: zero padding, the loop with \<open>IDCT2D(block) + 128\<close>,
  the crop, and \<open>np.clip(..., 0, 255)\<close>.
\<close>

definition block_idct :: "grid \<Rightarrow> nat \<Rightarrow> py_error + grid" where
  "block_idct coeffs block_size =
     (if block_size = 0 then Inl ZeroDivisionError
      else
        (let h = height coeffs; w = width coeffs;
             pad_h = pad_amount h block_size; pad_w = pad_amount w block_size;
             img = (if pad_h \<noteq> 0 \<or> pad_w \<noteq> 0 then np_pad_constant coeffs pad_h pad_w
                    else coeffs)
         in case block_loop block_size
                   (\<lambda>block. Inr (arr_map (\<lambda>x. x + 128) (IDCT2D block)))
                   img (zeros_like img) of
              Inl e \<Rightarrow> Inl e
            | Inr result \<Rightarrow> Inr (np_clip (crop result h w) 0 255)))"

text \<open>The round trip of the specification: \<open>block_idct(block_dct(x, blockSize), blockSize)\<close>.\<close>

definition dct_round_trip :: "grid \<Rightarrow> nat \<Rightarrow> py_error + grid" where
  "dct_round_trip x block_size =
     (case block_dct x block_size of
        Inl e \<Rightarrow> Inl e
      | Inr coeffs \<Rightarrow> block_idct coeffs block_size)"

text \<open>
  The two transforms as matrices: \<open>dct_kernel N k n\<close> is the entry of the orthonormal
  DCT matrix of size \<open>N\<close> in row \<open>k\<close> and column \<open>n\<close> (a notion of the proofs, not of the
  code).
\<close>

definition dct_kernel :: "nat \<Rightarrow> nat \<Rightarrow> nat \<Rightarrow> real" where
  "dct_kernel N k n =
     (if k = 0 then sqrt (1 / real N) else sqrt (2 / real N))
     * cos (pi * real k * (2 * real n + 1) / (2 * real N))"

section \<open>denoising.py: threshold\_coeffs\<close>




















section \<open>wavelets.py: DWT2D and IDWT2D\<close>

text \<open>
  The decomposition and the reconstruction themselves are the library calls
  \<open>pywt.wavedec2\<close> and \<open>pywt.waverec2\<close>, which are not part of the repository. The
  functions of \<open>wavelets.py\<close> and \<open>denoising.py\<close> that call them take the library
  function as their first argument here: whatever the library returns or raises, the
  model says what the repository's code does with it. The value of a coefficient
  structure \<open>[LL, (LH, HL, HH), ...]\<close> is the array \<open>LL\<close> and the list of detail triples.
\<close>

type_synonym detail = "grid \<times> grid \<times> grid"

type_synonym pywt_coeffs = "grid \<times> detail list"

type_synonym wavedec2_fn = "grid \<Rightarrow> string \<Rightarrow> int \<Rightarrow> py_error + pywt_coeffs"

type_synonym waverec2_fn = "grid option \<times> detail list \<Rightarrow> string \<Rightarrow> py_error + grid"

text \<open>The dataclass \<open>WaveletCoeffs\<close>; \<open>LL\<close> may be \<open>None\<close>.\<close>

record WaveletCoeffs =
  LL :: "grid option"
  LH :: grid
  HL :: grid
  HH :: grid

text \<open>
  \<open>DWT2D(image, wavelet, level)\<close>: the library call, then the conversion of its result:
  one record per detail triple (\<open>for i in range(1, len(coeffs))\<close>, with
  \<open>LL = coeffs[i-1] if i == 1 else None\<close>), then \<open>if result: result[0].LL = coeffs[0]\<close>.
  The function has no check of \<open>level\<close>.
\<close>

definition convert_coeffs :: "pywt_coeffs \<Rightarrow> WaveletCoeffs list" where
  "convert_coeffs coeffs =
     (case coeffs of (c0, details) \<Rightarrow>
        (let result = map (\<lambda>(i, (lh, hl, hh)).
                             \<lparr>LL = (if i = (1::nat) then Some c0 else None),
                              LH = lh, HL = hl, HH = hh\<rparr>)
                          (zip [1..<Suc (length details)] details)
         in if result \<noteq> [] then result[0 := (result ! 0)\<lparr>LL := Some c0\<rparr>] else result))"

definition DWT2D :: "wavedec2_fn \<Rightarrow> grid \<Rightarrow> string \<Rightarrow> int \<Rightarrow> py_error + WaveletCoeffs list" where
  "DWT2D wavedec2 img wavelet level =
     (case wavedec2 img wavelet level of
        Inl e \<Rightarrow> Inl e
      | Inr coeffs \<Rightarrow> Inr (convert_coeffs coeffs))"

text \<open>
  \<open>IDWT2D(coeffs, wavelet)\<close>: \<open>pywt_coeffs = [coeffs[0].LL]\<close>, one triple per record, and
  the library call.
\<close>

definition IDWT2D :: "waverec2_fn \<Rightarrow> WaveletCoeffs list \<Rightarrow> string \<Rightarrow> py_error + grid" where
  "IDWT2D waverec2 coeffs wavelet =
     (case coeffs of
        [] \<Rightarrow> Inl IndexError
      | c # _ \<Rightarrow> waverec2 (LL c, map (\<lambda>c. (LH c, HL c, HH c)) coeffs) wavelet)"

section \<open>denoising.py: estimate\_noise\_sigma\<close>

text \<open>
  \<open>np.median\<close> of the entries of an array: the middle entry in sorted order, the mean of
  the two middle entries for an even count, \<open>nan\<close> for no entries.
\<close>

definition np_median :: "real list \<Rightarrow> npfloat" where
  "np_median xs =
     (let n = length xs; ys = sort xs
      in if n = 0 then NaN
         else if odd n then Fin (ys ! (n div 2))
         else Fin ((ys ! (n div 2 - 1) + ys ! (n div 2)) / 2))"

text \<open>
  \<open>coeffs = pywt.wavedec2(image, 'db4', level=1)\<close>; \<open>HH = coeffs[1][2]\<close>;
  \<open>sigma = np.median(np.abs(HH)) / 0.6745\<close>.
\<close>

definition estimate_noise_sigma :: "wavedec2_fn \<Rightarrow> grid \<Rightarrow> py_error + npfloat" where
  "estimate_noise_sigma wavedec2 img =
     (case wavedec2 img ''db4'' 1 of
        Inl e \<Rightarrow> Inl e
      | Inr (c0, details) \<Rightarrow>
          (case details of
             [] \<Rightarrow> Inl IndexError
           | (lh, hl, hh) # _ \<Rightarrow>
               Inr (fl_div (np_median (concat (arr_map abs hh))) (Fin 0.6745))))"

text \<open>
  A median of a list: a value with at least half of the entries at or below it and at
  least half at or above it.
\<close>

definition is_median :: "real \<Rightarrow> real list \<Rightarrow> bool" where
  "is_median m xs =
     (length xs \<le> 2 * length (filter (\<lambda>x. x \<le> m) xs)
      \<and> length xs \<le> 2 * length (filter (\<lambda>x. m \<le> x) xs))"

text \<open>
  The quantities in the specification's words. The median of a list of numbers is the
  mean of its lower and its upper middle entry in sorted order (the middle entry itself
  for an odd count); the median absolute deviation of a sample is the median of the
  absolute deviations of its entries from the sample's median.
\<close>

definition median_value :: "real list \<Rightarrow> real" where
  "median_value xs =
     (let ys = sort xs; n = length xs
      in (ys ! ((n - 1) div 2) + ys ! (n div 2)) / 2)"

definition mad_value :: "real list \<Rightarrow> real" where
  "mad_value xs = median_value (map (\<lambda>x. \<bar>x - median_value xs\<bar>) xs)"

section \<open>Facts about shapes and elementwise operations\<close>

lemma stretch_same: "length xs = n \<Longrightarrow> stretch n xs = xs"
  by (cases xs) (auto simp: stretch_def)

lemma has_shape_width: "has_shape a h w \<Longrightarrow> 0 < h \<Longrightarrow> width a = w"
  by (cases a) (auto simp: has_shape_def width_def)

lemma has_shape_height: "has_shape a h w \<Longrightarrow> height a = h"
  by (simp add: has_shape_def height_def)

lemma has_shape_row: "has_shape a h w \<Longrightarrow> r \<in> set a \<Longrightarrow> length r = w"
  by (auto simp: has_shape_def list_all_iff)

lemma map2_stretch_rows:
  assumes "has_shape a h w" "has_shape b h w"
  shows "map2 (\<lambda>ra rb. map2 f (stretch w ra) (stretch w rb)) a b = map2 (map2 f) a b"
proof -
  have "stretch w ra = ra \<and> stretch w rb = rb" if "(ra, rb) \<in> set (zip a b)" for ra rb
  proof -
    have "ra \<in> set a" "rb \<in> set b"
      using that by (auto dest: set_zip_leftD set_zip_rightD)
    then have "length ra = w" "length rb = w"
      using assms has_shape_row by blast+
    then show ?thesis by (simp add: stretch_same)
  qed
  then show ?thesis by (auto intro!: map_cong)
qed

lemma np_binop_same_shape:
  assumes "has_shape a h w" "has_shape b h w"
  shows "np_binop f a b = Inr (map2 (map2 f) a b)"
proof (cases "h = 0")
  case True
  then have "a = []" "b = []" using assms by (simp_all add: has_shape_def)
  then show ?thesis by (simp add: np_binop_def bc_ok_def bc_len_def height_def width_def stretch_def)
next
  case False
  then have h: "0 < h" by simp
  have ha: "height a = h" "height b = h" using assms by (simp_all add: has_shape_height)
  have wa: "width a = w" "width b = w" using assms h by (simp_all add: has_shape_width)
  have la: "length a = h" "length b = h" using assms by (simp_all add: has_shape_def)
  have "bc_len h h = h" "bc_len w w = w" by (simp_all add: bc_len_def)
  then show ?thesis
    using map2_stretch_rows [OF assms, of f]
    by (simp add: np_binop_def ha wa bc_ok_def stretch_same la)
qed

lemma length_concat_shape:
  assumes "has_shape g h w"
  shows "length (concat g) = h * w"
proof -
  have "length g = h" "\<forall>r \<in> set g. length r = w"
    using assms by (simp_all add: has_shape_def list_all_iff)
  then have "map length g = replicate h w"
    by (metis map_replicate_const map_eq_conv)
  then show ?thesis by (simp add: length_concat sum_list_replicate)
qed

lemma has_shape_arr_map: "has_shape g h w \<Longrightarrow> has_shape (arr_map f g) h w"
  by (simp add: has_shape_def arr_map_def list_all_iff)

lemma has_shape_map2:
  assumes "has_shape a h w" "has_shape b h w"
  shows "has_shape (map2 (map2 f) a b) h w"
proof -
  have "length (map2 f ra rb) = w" if "(ra, rb) \<in> set (zip a b)" for ra rb
  proof -
    have "ra \<in> set a" "rb \<in> set b"
      using that by (auto dest: set_zip_leftD set_zip_rightD)
    then have "length ra = w" "length rb = w"
      using assms has_shape_row by blast+
    then show ?thesis by simp
  qed
  moreover have "length a = h" "length b = h" using assms by (simp_all add: has_shape_def)
  ultimately show ?thesis by (auto simp: has_shape_def list_all_iff)
qed

lemma map2_nth:
  assumes "has_shape a h w" "has_shape b h w" "i < h" "j < w"
  shows "map2 (map2 f) a b ! i ! j = f (a ! i ! j) (b ! i ! j)"
proof -
  have "length a = h" "length b = h" using assms by (simp_all add: has_shape_def)
  moreover have "length (a ! i) = w" "length (b ! i) = w"
    using assms by (auto simp: has_shape_def list_all_length)
  ultimately show ?thesis using assms by simp
qed

lemma grid_eq_iff:
  assumes "has_shape a h w" "has_shape b h w"
  shows "a = b \<longleftrightarrow> (\<forall>i<h. \<forall>j<w. a ! i ! j = b ! i ! j)"
proof -
  have la: "length a = h" "length b = h" using assms by (simp_all add: has_shape_def)
  have ra: "\<And>i. i < h \<Longrightarrow> length (a ! i) = w" "\<And>i. i < h \<Longrightarrow> length (b ! i) = w"
    using assms by (auto simp: has_shape_def list_all_length)
  show ?thesis
  proof
    assume "a = b" then show "\<forall>i<h. \<forall>j<w. a ! i ! j = b ! i ! j" by simp
  next
    assume e: "\<forall>i<h. \<forall>j<w. a ! i ! j = b ! i ! j"
    have "a ! i = b ! i" if "i < h" for i
      using that e ra by (intro nth_equalityI) auto
    then show "a = b" using la by (intro nth_equalityI) auto
  qed
qed

lemma arr_map_map2:
  "arr_map g (map2 (map2 f) a b) = map2 (map2 (\<lambda>x y. g (f x y))) a b"
proof -
  have row: "map g (map2 f ra rb) = map2 (\<lambda>x y. g (f x y)) ra rb" for ra rb
    by (simp add: case_prod_unfold)
  show ?thesis by (simp add: arr_map_def case_prod_unfold row [unfolded case_prod_unfold])
qed

lemma map2_same: "map2 f xs xs = map (\<lambda>x. f x x) xs"
  by (simp add: zip_same_conv_map)

lemma concat_replicate_rows: "concat (replicate h (replicate w c)) = replicate (h * w) c"
  by (induction h) (simp_all add: replicate_add)

lemma concat_const_rows:
  assumes "has_shape a h w"
  shows "concat (map (map (\<lambda>x. c)) a) = replicate (h * w) c"
proof -
  have "concat (map (map (\<lambda>x. c)) a) = map (\<lambda>x. c) (concat a)" by (simp add: map_concat)
  also have "\<dots> = replicate (length (concat a)) c" by (simp add: map_replicate_const)
  finally show ?thesis using length_concat_shape [OF assms] by simp
qed

section \<open>Facts about the quantization table\<close>

lemma scaled_table_entries:
  "scaled_table s = map (map (\<lambda>b. min (max (real_of_int \<lfloor>(b * s + 50) / 100\<rfloor>) 1) 255)) Q50"
  by (simp add: scaled_table_def np_clip_def np_floor_def arr_map_def comp_def)

lemma clamp_real_int:
  "min (max (real_of_int n) 1) 255 = real_of_int (spec_clamp n 1 255)"
  by (simp add: spec_clamp_def min_def max_def)

lemma quality_scale_in_range:
  assumes "1 \<le> q" "q \<le> 100"
  shows "quality_scale q = Inr (spec_scale q)"
  using assms by (simp add: quality_scale_def spec_scale_def)

lemma scaled_table_50: "scaled_table 100 = Q50"
  by (simp add: scaled_table_entries Q50_def)

lemma Q50_shape: "length Q50 = 8" "\<forall>r \<in> set Q50. length r = 8"
  by (simp_all add: Q50_def)

lemma Q50_nonneg: "\<forall>r \<in> set Q50. \<forall>b \<in> set r. 0 \<le> b"
  by (simp add: Q50_def)

lemma scaled_table_nth:
  assumes "i < 8" "j < 8"
  shows "scaled_table s ! i ! j = min (max (real_of_int \<lfloor>(Q50 ! i ! j * s + 50) / 100\<rfloor>) 1) 255"
proof -
  have li: "i < length Q50" using assms Q50_shape by simp
  then have "Q50 ! i \<in> set Q50" by simp
  then have lj: "j < length (Q50 ! i)" using assms Q50_shape by simp
  show ?thesis using li lj by (simp add: scaled_table_entries)
qed

lemma Q50_nth_nonneg:
  assumes "i < 8" "j < 8"
  shows "0 \<le> Q50 ! i ! j"
proof -
  have li: "i < length Q50" using assms Q50_shape by simp
  then have m: "Q50 ! i \<in> set Q50" by simp
  then have "j < length (Q50 ! i)" using assms Q50_shape by simp
  then have "Q50 ! i ! j \<in> set (Q50 ! i)" by simp
  then show ?thesis using m Q50_nonneg by blast
qed

lemma scaled_table_bounds:
  assumes "i < 8" "j < 8"
  shows "1 \<le> scaled_table s ! i ! j" "scaled_table s ! i ! j \<le> 255"
  using assms by (simp_all add: scaled_table_nth)

lemma scaled_table_shape: "has_shape (scaled_table s) 8 8"
  by (simp add: scaled_table_entries has_shape_def Q50_def)

lemma spec_scale_antimono:
  assumes "1 \<le> q1" "q1 \<le> q2" "q2 \<le> 100"
  shows "spec_scale q2 \<le> spec_scale q1"
proof -
  consider "q2 < 50" | "q1 < 50" "50 \<le> q2" | "50 \<le> q1" by linarith
  then show ?thesis
  proof cases
    case 1
    then have "q1 < 50" using assms by simp
    moreover have "5000 / real_of_int q2 \<le> 5000 / real_of_int q1"
      using assms by (intro divide_left_mono) auto
    ultimately show ?thesis using 1 by (simp add: spec_scale_def)
  next
    case 2
    have "real_of_int q1 \<le> 49" using 2 by simp
    then have "5000 / 49 \<le> 5000 / real_of_int q1"
      using assms by (intro divide_left_mono) auto
    moreover have "200 - 2 * real_of_int q2 \<le> 100" using 2 by simp
    ultimately show ?thesis using 2 by (simp add: spec_scale_def)
  next
    case 3
    then show ?thesis using assms by (simp add: spec_scale_def)
  qed
qed

lemma clip_mono:
  assumes "x \<le> (y::real)"
  shows "min (max x lo) hi \<le> min (max y lo) hi"
  using assms by linarith

lemma entry_mono_scale:
  assumes "0 \<le> (b::real)" "s2 \<le> s1"
  shows "min (max (real_of_int \<lfloor>(b * s2 + 50) / 100\<rfloor>) 1) 255
       \<le> min (max (real_of_int \<lfloor>(b * s1 + 50) / 100\<rfloor>) 1) (255::real)"
proof -
  have "b * s2 \<le> b * s1" using assms by (simp add: mult_left_mono)
  then have "(b * s2 + 50) / 100 \<le> (b * s1 + 50) / 100" by simp
  then have "\<lfloor>(b * s2 + 50) / 100\<rfloor> \<le> \<lfloor>(b * s1 + 50) / 100\<rfloor>" by (rule floor_mono)
  then have "real_of_int \<lfloor>(b * s2 + 50) / 100\<rfloor> \<le> real_of_int \<lfloor>(b * s1 + 50) / 100\<rfloor>" by simp
  then show ?thesis by (rule clip_mono)
qed


lemma quant_table_entries:
  assumes "1 \<le> q" "q \<le> 100"
  shows "quant_table q = Inr (map (map (\<lambda>base. spec_entry base q)) Q50)"
  using assms
  by (simp add: quant_table_def quality_scale_in_range scaled_table_entries clamp_real_int
      spec_entry_def)

lemma quant_table_at_1: "quant_table 1 = Inr (scaled_table 5000)"
  by (simp add: quant_table_def quality_scale_def)

lemma quant_table_at_50: "quant_table 50 = Inr (scaled_table 100)"
  by (simp add: quant_table_def quality_scale_def)

lemma quant_table_at_100: "quant_table 100 = Inr (scaled_table 0)"
  by (simp add: quant_table_def quality_scale_def)

lemma scaled_table_corner_hi: "scaled_table 5000 ! 0 ! 0 = 255"
  by (simp add: scaled_table_nth) (simp add: Q50_def)

lemma scaled_table_corner_lo: "scaled_table 0 ! 0 ! 0 = 1"
  by (simp add: scaled_table_nth)

text \<open>
  C3. For every quality in [1,100] the table of \<open>quantize_dct\<close> is, entry by entry,
  \<open>clamp(floor((base*scale+50)/100), 1, 255)\<close> over the base luminance table, with scale
  \<open>5000/quality\<close> below 50 and \<open>200 - 2*quality\<close> from 50 on; at quality 50 the table is the
  base table itself; and the entry \<open>[0][0]\<close> at quality 1 is strictly larger than at
  quality 100.
\<close>

theorem quant_table_construction:
  assumes "1 \<le> q" "q \<le> 100"
  shows "quant_table q = Inr (map (map (\<lambda>base. spec_entry base q)) Q50)
       \<and> quant_table 50 = Inr Q50
       \<and> (\<exists>T1 T100. quant_table 1 = Inr T1 \<and> quant_table 100 = Inr T100
                     \<and> T100 ! 0 ! 0 < T1 ! 0 ! 0)"
proof -
  have a: "quant_table q = Inr (map (map (\<lambda>base. spec_entry base q)) Q50)"
    using assms by (rule quant_table_entries)
  have b: "quant_table 50 = Inr Q50"
    by (simp add: quant_table_at_50 scaled_table_50)
  have "scaled_table 0 ! 0 ! 0 < scaled_table 5000 ! 0 ! 0"
    by (simp add: scaled_table_corner_hi scaled_table_corner_lo)
  then have c: "\<exists>T1 T100. quant_table 1 = Inr T1 \<and> quant_table 100 = Inr T100
                     \<and> T100 ! 0 ! 0 < T1 ! 0 ! 0"
    using quant_table_at_1 quant_table_at_100 by blast
  show ?thesis using a b c by blast
qed

theorem quant_table_construction_witness:
  "(1::int) \<le> 75 \<and> (75::int) \<le> 100
   \<and> quant_table 75 = Inr (map (map (\<lambda>base. spec_entry base 75)) Q50)
   \<and> spec_entry 16 75 = 8
   \<and> quant_table 50 = Inr Q50"
proof -
  have h1: "(1::int) \<le> 75" and h2: "(75::int) \<le> 100" by simp_all
  have e: "spec_entry 16 75 = 8"
    by (simp add: spec_entry_def spec_scale_def spec_clamp_def)
  show ?thesis using quant_table_construction [OF h1 h2] e by simp
qed

text \<open>
  C4. For qualities \<open>q1 \<le> q2\<close> in [1,100] and every position \<open>(i, j)\<close> of the 8 by 8
  table, both tables exist and the divisor for \<open>q1\<close> is at least the divisor for \<open>q2\<close>.
\<close>

theorem quant_table_monotone:
  assumes "1 \<le> q1" "q1 \<le> q2" "q2 \<le> 100" "i < 8" "j < 8"
  shows "\<exists>T1 T2. quant_table q1 = Inr T1 \<and> quant_table q2 = Inr T2 \<and> T2 ! i ! j \<le> T1 ! i ! j"
proof -
  have r1: "1 \<le> q1" "q1 \<le> 100" and r2: "1 \<le> q2" "q2 \<le> 100" using assms by simp_all
  have t1: "quant_table q1 = Inr (scaled_table (spec_scale q1))"
    by (simp add: quant_table_def quality_scale_in_range [OF r1])
  have t2: "quant_table q2 = Inr (scaled_table (spec_scale q2))"
    by (simp add: quant_table_def quality_scale_in_range [OF r2])
  have s: "spec_scale q2 \<le> spec_scale q1"
    using assms(1-3) by (rule spec_scale_antimono)
  have b: "0 \<le> Q50 ! i ! j" using assms(4,5) by (rule Q50_nth_nonneg)
  have "scaled_table (spec_scale q2) ! i ! j \<le> scaled_table (spec_scale q1) ! i ! j"
    unfolding scaled_table_nth [OF assms(4,5)] using b s by (rule entry_mono_scale)
  then show ?thesis using t1 t2 by blast
qed

theorem quant_table_monotone_witness:
  "\<exists>T1 T2. quant_table 10 = Inr T1 \<and> quant_table 90 = Inr T2 \<and> T2 ! 0 ! 0 \<le> T1 ! 0 ! 0"
proof -
  have h: "(1::int) \<le> 10" "(10::int) \<le> 90" "(90::int) \<le> 100" "(0::nat) < 8" by simp_all
  show ?thesis using quant_table_monotone [OF h(1) h(2) h(3) h(4) h(4)] .
qed

section \<open>Facts about compute\_threshold\<close>




section \<open>Facts about psnr and snr\<close>

lemma np_mean_zeros:
  assumes "float64_laws F" "0 < n"
  shows "np_mean F (replicate n (Fin 0)) = Fin 0"
proof -
  obtain m where m: "n = Suc m" using assms(2) by (cases n) auto
  have "f_mean F (replicate (Suc m) (Fin 0)) = Fin 0"
    using assms(1) by (simp add: float64_laws_def)
  then show ?thesis by (simp add: np_mean_def m)
qed

text \<open>On two arrays of the same shape the subtraction broadcasts nothing.\<close>

lemma psnr_eval:
  assumes "has_shape a h w" "has_shape b h w"
  shows "psnr F a b max_val =
           (if computed_mse F a b = Fin 0 then Inr PInf
            else case f_pow2 F max_val of
                   Inl e \<Rightarrow> Inl e
                 | Inr p \<Rightarrow> Inr (f_mul F (Fin 10) (f_log10 F (f_div F p (computed_mse F a b)))))"
proof -
  have m: "np_mean F (concat (arr_map (f_square F) (map2 (map2 (f_sub F)) a b)))
             = computed_mse F a b"
    by (simp only: arr_map_map2 computed_mse_def)
  show ?thesis
    by (cases "f_pow2 F max_val") (simp_all add: psnr_def np_binop_same_shape [OF assms] m)
qed

lemma snr_eval:
  assumes "has_shape a h w" "has_shape b h w"
  shows "snr F a b =
           Inr (if computed_mse F b a = Fin 0 then PInf
                else f_mul F (Fin 10)
                       (f_log10 F (f_div F (computed_power F a) (computed_mse F b a))))"
proof -
  have m: "np_mean F (concat (arr_map (f_square F) (map2 (map2 (f_sub F)) b a)))
             = computed_mse F b a"
    by (simp only: arr_map_map2 computed_mse_def)
  have q: "np_mean F (concat (arr_map (\<lambda>x. f_square F (Fin x)) a)) = computed_power F a"
    by (simp only: arr_map_def computed_power_def)
  show ?thesis
    by (simp add: snr_def np_binop_same_shape [OF assms(2,1)] m q)
qed

lemma computed_mse_same:
  assumes "float64_laws F" "has_shape a h w" "0 < h" "0 < w"
  shows "computed_mse F a a = Fin 0"
proof -
  have z: "f_square F (f_sub F x x) = Fin 0" for x
    using assms(1) by (simp add: float64_laws_def)
  have "map2 (map2 (\<lambda>x y. f_square F (f_sub F x y))) a a = map (map (\<lambda>x. Fin 0)) a"
    by (simp add: map2_same z)
  then have "computed_mse F a a = np_mean F (replicate (h * w) (Fin 0))"
    by (simp add: computed_mse_def concat_const_rows [OF assms(2)])
  then show ?thesis using np_mean_zeros [OF assms(1), of "h * w"] assms(3,4) by simp
qed

lemma computed_mse_zero_diff:
  assumes "float64_laws F" "0 < h" "0 < w"
    and "map2 (map2 (f_sub F)) b a = replicate h (replicate w (Fin 0))"
  shows "computed_mse F b a = Fin 0"
proof -
  have sq: "f_square F (Fin 0) = Fin 0" using assms(1) by (simp add: float64_laws_def)
  have "map2 (map2 (\<lambda>x y. f_square F (f_sub F x y))) b a
          = arr_map (f_square F) (map2 (map2 (f_sub F)) b a)"
    by (rule arr_map_map2 [symmetric])
  also have "\<dots> = replicate h (replicate w (Fin 0))"
    by (simp add: assms(4) arr_map_def sq)
  finally have "computed_mse F b a = np_mean F (replicate (h * w) (Fin 0))"
    by (simp add: computed_mse_def concat_replicate_rows)
  then show ?thesis using np_mean_zeros [OF assms(1), of "h * w"] assms(2,3) by simp
qed

lemma exact_ops_laws: "float64_laws exact_ops"
proof -
  have z: "foldr fl_add (replicate n (Fin 0)) (Fin 0) = Fin 0" for n
    by (induction n) simp_all
  have m: "f_mean exact_ops (replicate (Suc n) (Fin 0)) = Fin 0" for n
  proof -
    have "f_mean exact_ops (replicate (Suc n) (Fin 0))
            = fl_div (foldr fl_add (replicate (Suc n) (Fin 0)) (Fin 0))
                (Fin (real (length (replicate (Suc n) (Fin (0::real))))))"
      unfolding exact_ops_def by (simp only: float64_ops.simps)
    also have "\<dots> = fl_div (Fin 0) (Fin (real (Suc n)))"
      by (simp only: z length_replicate)
    also have "\<dots> = Fin 0" by simp
    finally show ?thesis .
  qed
  have a: "\<forall>x. f_sub exact_ops x x = Fin 0" by (simp add: exact_ops_def)
  have b: "f_square exact_ops (Fin 0) = Fin 0" by (simp add: exact_ops_def)
  have c: "f_pow2 exact_ops 255 = Inr (Fin 65025)" by (simp add: exact_ops_def)
  show ?thesis unfolding float64_laws_def using a b c m by blast
qed

text \<open>
  C9 as stated (for every pair of equal-shaped arrays, \<open>snr\<close> returns \<open>+infinity\<close> exactly when
  noisy minus signal is the zero array) does not hold for arrays without entries: the
  difference of two empty arrays is the empty array, all of whose entries are zero, both
  means are \<open>nan\<close>, and \<open>snr\<close> returns \<open>nan\<close>, as does \<open>psnr\<close>. Only the treatment
  of \<open>nan\<close> by the operations enters here.
\<close>

theorem snr_empty_counterexample:
  "np_binop (f_sub exact_ops) [] [] = Inr [] \<and> snr exact_ops [] [] = Inr NaN
   \<and> snr exact_ops [] [] \<noteq> Inr PInf \<and> psnr exact_ops [] [] 255 = Inr NaN"
  by (simp add: snr_def psnr_def np_binop_def np_mean_def arr_map_def bc_ok_def bc_len_def
      stretch_def height_def width_def exact_ops_def)

text \<open>
  C9, amended. Let the float64 operations be any that satisfy \<open>float64_laws\<close>, and let
  \<open>a\<close> and \<open>b\<close> be arrays of the same shape \<open>(h, w)\<close> with at least one entry. Then
  \<open>psnr\<close> with the default \<open>max_val\<close> and \<open>snr\<close> do not raise. \<open>psnr\<close> returns
  \<open>+infinity\<close> when the mean squared difference it computes is zero, for every
  \<open>max_val\<close>, and otherwise the float64 value of \<open>10*log10(max_val^2/mse)\<close>; \<open>snr\<close>
  returns \<open>+infinity\<close> when the noise power it computes is zero and otherwise the float64
  value of \<open>10*log10(signal power / noise power)\<close>. The computed mean is zero, and both
  functions return \<open>+infinity\<close>, when the two arrays are equal; \<open>snr\<close> also returns
  \<open>+infinity\<close> when the computed difference noisy minus signal is the zero array.
  The converse implications are not claimed.
\<close>

theorem psnr_snr_zero_error:
  assumes "float64_laws F" "has_shape a h w" "has_shape b h w" "0 < h" "0 < w"
  shows "psnr F a b 255 =
           Inr (if computed_mse F a b = Fin 0 then PInf
                else f_mul F (Fin 10)
                       (f_log10 F (f_div F (Fin 65025) (computed_mse F a b))))
       \<and> snr F a b =
           Inr (if computed_mse F b a = Fin 0 then PInf
                else f_mul F (Fin 10)
                       (f_log10 F (f_div F (computed_power F a) (computed_mse F b a))))
       \<and> (computed_mse F a b = Fin 0 \<longrightarrow> psnr F a b max_val = Inr PInf)
       \<and> (a = b \<longrightarrow> computed_mse F a b = Fin 0
                     \<and> psnr F a b max_val = Inr PInf \<and> snr F a b = Inr PInf)
       \<and> (map2 (map2 (f_sub F)) b a = replicate h (replicate w (Fin 0))
            \<longrightarrow> snr F a b = Inr PInf)"
proof -
  have p255: "f_pow2 F 255 = Inr (Fin 65025)" using assms(1) by (simp add: float64_laws_def)
  have p: "psnr F a b 255 =
           Inr (if computed_mse F a b = Fin 0 then PInf
                else f_mul F (Fin 10)
                       (f_log10 F (f_div F (Fin 65025) (computed_mse F a b))))"
    by (simp add: psnr_eval [OF assms(2,3)] p255)
  have s: "snr F a b =
           Inr (if computed_mse F b a = Fin 0 then PInf
                else f_mul F (Fin 10)
                       (f_log10 F (f_div F (computed_power F a) (computed_mse F b a))))"
    by (rule snr_eval [OF assms(2,3)])
  have pz: "psnr F a b max_val = Inr PInf" if "computed_mse F a b = Fin 0"
    using that by (simp add: psnr_eval [OF assms(2,3)])
  have sz: "snr F a b = Inr PInf" if "computed_mse F b a = Fin 0"
    using that by (simp add: s)
  have e: "computed_mse F a b = Fin 0 \<and> psnr F a b max_val = Inr PInf \<and> snr F a b = Inr PInf"
    if "a = b"
  proof -
    have z: "computed_mse F a a = Fin 0"
      by (rule computed_mse_same [OF assms(1,2,4,5)])
    then show ?thesis using that pz sz by simp
  qed
  have d: "snr F a b = Inr PInf"
    if "map2 (map2 (f_sub F)) b a = replicate h (replicate w (Fin 0))"
    using computed_mse_zero_diff [OF assms(1,4,5) that] sz by simp
  show ?thesis using p s pz e d by blast
qed

theorem psnr_snr_zero_error_witness:
  "psnr exact_ops [[1, 2]] [[1, 2]] 255 = Inr PInf
   \<and> snr exact_ops [[1, 2]] [[1, 2]] = Inr PInf
   \<and> computed_mse exact_ops [[3, 0]] [[0, 4]] = Fin (25 / 2)
   \<and> psnr exact_ops [[3, 0]] [[0, 4]] 255 = Inr (Fin (10 * log 10 (65025 / (25 / 2))))"
proof -
  have s: "has_shape [[1, 2 :: real]] 1 2" "has_shape [[3, 0 :: real]] 1 2" "has_shape [[0, 4 :: real]] 1 2"
    by (simp_all add: has_shape_def)
  have p: "(0::nat) < 1" "(0::nat) < 2" by simp_all
  have m: "computed_mse exact_ops [[3, 0]] [[0, 4]] = Fin (25 / 2)"
    by (simp add: computed_mse_def np_mean_def exact_ops_def)
  have l: "fl_mul (Fin 10) (fl_log10 (fl_div (Fin 65025) (Fin (25 / 2))))
             = Fin (10 * log 10 (65025 / (25 / 2)))"
    by simp
  have ops: "f_mul exact_ops = fl_mul" "f_log10 exact_ops = fl_log10" "f_div exact_ops = fl_div"
    by (simp_all add: exact_ops_def)
  have "psnr exact_ops [[1, 2]] [[1, 2]] 255 = Inr PInf \<and> snr exact_ops [[1, 2]] [[1, 2]] = Inr PInf"
    using psnr_snr_zero_error [OF exact_ops_laws s(1) s(1) p, of 255] by simp
  moreover have "psnr exact_ops [[3, 0]] [[0, 4]] 255 = Inr (Fin (10 * log 10 (65025 / (25 / 2))))"
    using psnr_snr_zero_error [OF exact_ops_laws s(2) s(3) p, of 255] l
    by (simp only: m ops npfloat.inject) simp
  ultimately show ?thesis using m by blast
qed

lemma underflow_ops_laws: "float64_laws underflow_ops"
proof -
  have e: "float64_laws exact_ops" by (rule exact_ops_laws)
  have m: "f_mean underflow_ops = f_mean exact_ops" "f_sub underflow_ops = f_sub exact_ops"
    "f_pow2 underflow_ops = f_pow2 exact_ops"
    by (simp_all add: underflow_ops_def)
  have s: "f_square underflow_ops (Fin 0) = Fin 0" by (simp add: underflow_ops_def)
  show ?thesis using e s unfolding float64_laws_def m by blast
qed

lemma square_below_subnormal: "(1 / 2 ^ 600) * (1 / 2 ^ 600) < (1 / 2 ^ 1075 :: real)"
proof -
  have "(1 / 2 ^ 600) * (1 / 2 ^ 600) = (1 / 2 ^ 1200 :: real)"
    by (simp add: power_add [symmetric])
  moreover have "(2::real) ^ 1075 < 2 ^ 1200" by (rule power_strict_increasing) simp_all
  ultimately show ?thesis by (simp add: frac_less2)
qed

text \<open>
  The converse implications do not follow from the laws: with operations that
  underflow, both functions return \<open>+infinity\<close> for arrays that differ.
\<close>

lemma underflow_to_inf:
  assumes "e * e < 1 / 2 ^ 1075"
  shows "psnr underflow_ops [[e]] [[0]] 255 = Inr PInf"
    and "snr underflow_ops [[0]] [[e]] = Inr PInf"
proof -
  have sq: "f_square underflow_ops (Fin e) = Fin 0"
    using assms by (simp add: underflow_ops_def)
  have sq0: "f_square underflow_ops (Fin 0) = Fin 0" by (simp add: underflow_ops_def)
  have sub: "f_sub underflow_ops e 0 = Fin e"
    by (simp add: underflow_ops_def exact_ops_def)
  have mean: "f_mean underflow_ops [Fin 0] = Fin 0"
    by (simp add: underflow_ops_def exact_ops_def)
  show "psnr underflow_ops [[e]] [[0]] 255 = Inr PInf"
    by (simp add: psnr_def np_binop_def bc_ok_def bc_len_def stretch_def height_def width_def
        arr_map_def np_mean_def sub sq mean)
  show "snr underflow_ops [[0]] [[e]] = Inr PInf"
    by (simp add: snr_def np_binop_def bc_ok_def bc_len_def stretch_def height_def width_def
        arr_map_def np_mean_def sub sq sq0 mean)
qed

lemma psnr_underflow:
  "float64_laws underflow_ops
   \<and> [[1 / 2 ^ 600]] \<noteq> [[0 :: real]]
   \<and> psnr underflow_ops [[1 / 2 ^ 600]] [[0]] 255 = Inr PInf
   \<and> snr underflow_ops [[0]] [[1 / 2 ^ 600]] = Inr PInf"
proof -
  have "[[1 / 2 ^ 600]] \<noteq> [[0 :: real]]" by simp
  then show ?thesis using underflow_ops_laws underflow_to_inf [OF square_below_subnormal] by blast
qed

section \<open>Facts about the block loop\<close>

lemma has_shape_nth:
  "has_shape g h w \<longleftrightarrow> length g = h \<and> (\<forall>i<h. length (g ! i) = w)"
  by (auto simp: has_shape_def list_all_length)

lemma get_block_nth:
  assumes "has_shape img H W" "i + bs \<le> H" "j + bs \<le> W" "k < bs" "l < bs"
  shows "get_block img i j bs ! k ! l = img ! (i + k) ! (j + l)"
proof -
  have len: "length img = H" and row: "length (img ! (i + k)) = W"
    using assms by (simp_all add: has_shape_nth)
  have "k < length (take bs (drop i img))" using assms len by simp
  then have "get_block img i j bs ! k = take bs (drop j (img ! (i + k)))"
    using assms len by (simp add: get_block_def)
  then show ?thesis using assms row by simp
qed

lemma get_block_shape:
  assumes "has_shape img H W" "i + bs \<le> H" "j + bs \<le> W"
  shows "has_shape (get_block img i j bs) bs bs"
proof -
  have len: "length img = H" and row: "\<And>r. r < H \<Longrightarrow> length (img ! r) = W"
    using assms by (simp_all add: has_shape_nth)
  have l: "length (get_block img i j bs) = bs" using assms len by (simp add: get_block_def)
  have "length (get_block img i j bs ! k) = bs" if "k < bs" for k
  proof -
    have "get_block img i j bs ! k = take bs (drop j (img ! (i + k)))"
      using that assms len by (simp add: get_block_def)
    then show ?thesis using that assms row [of "i + k"] by simp
  qed
  then show ?thesis using l by (simp add: has_shape_nth)
qed

lemma set_block_entries:
  assumes "has_shape res H W" "i + bs \<le> H" "j + bs \<le> W" "has_shape v bs bs" "0 < bs"
  shows "\<exists>R. set_block res i j bs v = Inr R \<and> has_shape R H W
           \<and> (\<forall>r<H. \<forall>c<W. R ! r ! c =
                 (if i \<le> r \<and> r < i + bs \<and> j \<le> c \<and> c < j + bs then v ! (r - i) ! (c - j)
                  else res ! r ! c))"
proof -
  have len: "length res = H" and row: "\<And>r. r < H \<Longrightarrow> length (res ! r) = W"
    using assms by (simp_all add: has_shape_nth)
  have "0 < H" using assms by simp
  then have wd: "width res = W" using assms by (simp add: has_shape_width)
  have ht: "height res = H" using len by (simp add: height_def)
  have sh: "min (i + bs) (height res) - i = bs" "min (j + bs) (width res) - j = bs"
    using assms wd ht by simp_all
  define R where "R = map (\<lambda>r. if i \<le> r \<and> r < i + bs
                          then map (\<lambda>c. if j \<le> c \<and> c < j + bs then v ! (r - i) ! (c - j)
                                         else res ! r ! c) [0..<length (res ! r)]
                          else res ! r) [0..<length res]"
  have eq: "set_block res i j bs v = Inr R"
    using assms(4) sh by (simp add: set_block_def R_def)
  have shape: "has_shape R H W"
    using len row by (simp add: has_shape_nth R_def)
  have ent: "R ! r ! c = (if i \<le> r \<and> r < i + bs \<and> j \<le> c \<and> c < j + bs then v ! (r - i) ! (c - j)
                  else res ! r ! c)" if "r < H" "c < W" for r c
    using that len row [of r] by (simp add: R_def)
  show ?thesis using eq shape ent by blast
qed


lemma div_eq_block:
  assumes "0 < (bs::nat)"
  shows "c div bs = k \<longleftrightarrow> k * bs \<le> c \<and> c < k * bs + bs"
proof
  assume e: "c div bs = k"
  have "c = c div bs * bs + c mod bs" by simp
  then have "c = k * bs + c mod bs" by (simp only: e)
  moreover have "c mod bs < bs" using assms by simp
  ultimately show "k * bs \<le> c \<and> c < k * bs + bs" by linarith
next
  assume a: "k * bs \<le> c \<and> c < k * bs + bs"
  then have "bs * k \<le> c" "c < bs * Suc k" by (simp_all add: mult.commute)
  then show "c div bs = k" by (rule div_nat_eqI)
qed

lemma sub_block_mod:
  assumes "0 < (bs::nat)" "c div bs = k"
  shows "c - k * bs = c mod bs"
proof -
  have "c = c div bs * bs + c mod bs" by simp
  then have "c = k * bs + c mod bs" by (simp only: assms(2))
  then show ?thesis by linarith
qed

text \<open>The inner loop, over a list of block columns.\<close>

lemma inner_loop_entries:
  assumes f: "\<And>b. has_shape b bs bs \<Longrightarrow> f b = Inr (F b) \<and> has_shape (F b) bs bs"
    and img: "has_shape img H W" and bs: "0 < bs" and i: "i + bs \<le> H"
  shows "has_shape res H W \<Longrightarrow> (\<forall>k \<in> set ks. k * bs + bs \<le> W) \<Longrightarrow>
         \<exists>R. for_each (\<lambda>j result. case f (get_block img i j bs) of
                                      Inl e \<Rightarrow> Inl e
                                    | Inr v \<Rightarrow> set_block result i j bs v)
                 (map (\<lambda>k. k * bs) ks) res = Inr R
           \<and> has_shape R H W
           \<and> (\<forall>r<H. \<forall>c<W. R ! r ! c =
                 (if i \<le> r \<and> r < i + bs \<and> c div bs \<in> set ks
                  then F (get_block img i (c div bs * bs) bs) ! (r - i) ! (c mod bs)
                  else res ! r ! c))"
proof (induction ks arbitrary: res)
  case Nil
  then show ?case by simp
next
  case (Cons k ks)
  have kb: "k * bs + bs \<le> W" using Cons.prems by simp
  have blk: "has_shape (get_block img i (k * bs) bs) bs bs"
    using img i kb by (rule get_block_shape)
  let ?v = "F (get_block img i (k * bs) bs)"
  have fv: "f (get_block img i (k * bs) bs) = Inr ?v" and sv: "has_shape ?v bs bs"
    using f [OF blk] by simp_all
  obtain R1 where R1: "set_block res i (k * bs) bs ?v = Inr R1" "has_shape R1 H W"
    and e1: "\<forall>r<H. \<forall>c<W. R1 ! r ! c =
                 (if i \<le> r \<and> r < i + bs \<and> k * bs \<le> c \<and> c < k * bs + bs
                  then ?v ! (r - i) ! (c - k * bs) else res ! r ! c)"
    using set_block_entries [OF Cons.prems(1) i kb sv bs] by blast
  have ks: "\<forall>k \<in> set ks. k * bs + bs \<le> W" using Cons.prems by simp
  obtain R where R: "for_each (\<lambda>j result. case f (get_block img i j bs) of
                                      Inl e \<Rightarrow> Inl e
                                    | Inr v \<Rightarrow> set_block result i j bs v)
                 (map (\<lambda>k. k * bs) ks) R1 = Inr R" "has_shape R H W"
    and e: "\<forall>r<H. \<forall>c<W. R ! r ! c =
                 (if i \<le> r \<and> r < i + bs \<and> c div bs \<in> set ks
                  then F (get_block img i (c div bs * bs) bs) ! (r - i) ! (c mod bs)
                  else R1 ! r ! c)"
    using Cons.IH [OF R1(2) ks] by blast
  have run: "for_each (\<lambda>j result. case f (get_block img i j bs) of
                                      Inl e \<Rightarrow> Inl e
                                    | Inr v \<Rightarrow> set_block result i j bs v)
                 (map (\<lambda>k. k * bs) (k # ks)) res = Inr R"
    using fv R1(1) R(1) by simp
  have ent: "R ! r ! c =
                 (if i \<le> r \<and> r < i + bs \<and> c div bs \<in> set (k # ks)
                  then F (get_block img i (c div bs * bs) bs) ! (r - i) ! (c mod bs)
                  else res ! r ! c)" if rc: "r < H" "c < W" for r c
  proof (cases "i \<le> r \<and> r < i + bs \<and> c div bs \<in> set ks")
    case True
    then show ?thesis using e rc by simp
  next
    case False
    have "R ! r ! c = (if i \<le> r \<and> r < i + bs \<and> c div bs \<in> set ks
                  then F (get_block img i (c div bs * bs) bs) ! (r - i) ! (c mod bs)
                  else R1 ! r ! c)" using e rc by blast
    then have a: "R ! r ! c = R1 ! r ! c" by (simp only: if_not_P [OF False])
    have e1rc: "R1 ! r ! c =
                 (if i \<le> r \<and> r < i + bs \<and> k * bs \<le> c \<and> c < k * bs + bs
                  then ?v ! (r - i) ! (c - k * bs) else res ! r ! c)"
      using e1 rc by blast
    show ?thesis
    proof (cases "i \<le> r \<and> r < i + bs \<and> c div bs = k")
      case True
      then have "i \<le> r \<and> r < i + bs \<and> k * bs \<le> c \<and> c < k * bs + bs"
        using div_eq_block [OF bs, of c k] by blast
      then have "R1 ! r ! c = ?v ! (r - i) ! (c - k * bs)"
        using e1rc by (simp only: if_P)
      then show ?thesis using a True sub_block_mod [OF bs, of c k] by simp
    next
      case F2: False
      then have n: "\<not> (i \<le> r \<and> r < i + bs \<and> k * bs \<le> c \<and> c < k * bs + bs)"
        using div_eq_block [OF bs, of c k] by blast
      have "R1 ! r ! c = res ! r ! c"
        using e1rc by (simp only: if_not_P [OF n])
      moreover have n2: "\<not> (i \<le> r \<and> r < i + bs \<and> c div bs \<in> set (k # ks))"
        using False F2 by auto
      ultimately show ?thesis using a by (simp only: if_not_P [OF n2] if_False)
    qed
  qed
  show ?case using run R(2) ent by blast
qed


lemma py_range_dvd:
  assumes "0 < bs" "bs dvd n"
  shows "py_range n bs = map (\<lambda>k. k * bs) [0..<n div bs]"
proof -
  obtain m where m: "n = bs * m" using assms(2) by (auto simp: dvd_def)
  have "(bs * m + bs - 1) div bs = m"
  proof -
    have "bs * m + bs - 1 = (bs - 1) + m * bs" using assms(1) by (simp add: algebra_simps)
    moreover have "((bs - 1) + m * bs) div bs = m + (bs - 1) div bs"
      using assms(1) by (intro div_mult_self1) simp
    moreover have "(bs - 1) div bs = 0" using assms(1) by simp
    ultimately show ?thesis by (simp only: add_0_right)
  qed
  then show ?thesis using m assms(1) by (simp add: py_range_def)
qed

lemma block_index_bound:
  assumes "0 < bs" "bs dvd n" "k < n div bs"
  shows "k * bs + bs \<le> (n::nat)"
proof -
  have "Suc k \<le> n div bs" using assms by simp
  then have "Suc k * bs \<le> (n div bs) * bs" by (rule mult_le_mono1)
  then show ?thesis using assms by simp
qed

lemma block_index_in_range:
  assumes "0 < bs" "bs dvd n" "c < (n::nat)"
  shows "c div bs \<in> set [0..<n div bs]"
proof -
  obtain m where m: "n = bs * m" using assms(2) by (auto simp: dvd_def)
  have "c div bs < m" using assms m by (simp add: less_mult_imp_div_less mult.commute)
  then show ?thesis using m assms by simp
qed

text \<open>One pass of the inner loop over all block columns of a row of blocks.\<close>

lemma row_of_blocks_entries:
  assumes f: "\<And>b. has_shape b bs bs \<Longrightarrow> f b = Inr (F b) \<and> has_shape (F b) bs bs"
    and img: "has_shape img H W" and bs: "0 < bs" and i: "i + bs \<le> H" and dv: "bs dvd W"
    and res: "has_shape res H W"
  shows "\<exists>R. for_each (\<lambda>j result. case f (get_block img i j bs) of
                                      Inl e \<Rightarrow> Inl e
                                    | Inr v \<Rightarrow> set_block result i j bs v)
                 (py_range W bs) res = Inr R
           \<and> has_shape R H W
           \<and> (\<forall>r<H. \<forall>c<W. R ! r ! c =
                 (if i \<le> r \<and> r < i + bs
                  then F (get_block img i (c div bs * bs) bs) ! (r - i) ! (c mod bs)
                  else res ! r ! c))"
proof -
  have ks: "\<forall>k \<in> set [0..<W div bs]. k * bs + bs \<le> W"
    using block_index_bound [OF bs dv] by simp
  obtain R where R: "for_each (\<lambda>j result. case f (get_block img i j bs) of
                                      Inl e \<Rightarrow> Inl e
                                    | Inr v \<Rightarrow> set_block result i j bs v)
                 (map (\<lambda>k. k * bs) [0..<W div bs]) res = Inr R" "has_shape R H W"
    and e: "\<forall>r<H. \<forall>c<W. R ! r ! c =
                 (if i \<le> r \<and> r < i + bs \<and> c div bs \<in> set [0..<W div bs]
                  then F (get_block img i (c div bs * bs) bs) ! (r - i) ! (c mod bs)
                  else res ! r ! c)"
    using inner_loop_entries [of bs f F img H W i res "[0..<W div bs]", OF f img bs i res ks]
    by blast
  have "R ! r ! c = (if i \<le> r \<and> r < i + bs
                  then F (get_block img i (c div bs * bs) bs) ! (r - i) ! (c mod bs)
                  else res ! r ! c)" if rc: "r < H" "c < W" for r c
  proof -
    have m: "c div bs \<in> set [0..<W div bs]" using bs dv rc(2) by (rule block_index_in_range)
    have "R ! r ! c = (if i \<le> r \<and> r < i + bs \<and> c div bs \<in> set [0..<W div bs]
                  then F (get_block img i (c div bs * bs) bs) ! (r - i) ! (c mod bs)
                  else res ! r ! c)" using e rc by blast
    then show ?thesis using m by simp
  qed
  then show ?thesis using R py_range_dvd [OF bs dv] by simp
qed


text \<open>The outer loop, over a list of block rows.\<close>

lemma outer_loop_entries:
  assumes f: "\<And>b. has_shape b bs bs \<Longrightarrow> f b = Inr (F b) \<and> has_shape (F b) bs bs"
    and img: "has_shape img H W" and bs: "0 < bs" and dv: "bs dvd W"
  shows "has_shape res H W \<Longrightarrow> (\<forall>k \<in> set ks. k * bs + bs \<le> H) \<Longrightarrow>
         \<exists>R. for_each (\<lambda>i result.
                  for_each (\<lambda>j result. case f (get_block img i j bs) of
                                      Inl e \<Rightarrow> Inl e
                                    | Inr v \<Rightarrow> set_block result i j bs v)
                    (py_range W bs) result)
                 (map (\<lambda>k. k * bs) ks) res = Inr R
           \<and> has_shape R H W
           \<and> (\<forall>r<H. \<forall>c<W. R ! r ! c =
                 (if r div bs \<in> set ks
                  then F (get_block img (r div bs * bs) (c div bs * bs) bs) ! (r mod bs) ! (c mod bs)
                  else res ! r ! c))"
proof (induction ks arbitrary: res)
  case Nil
  then show ?case by simp
next
  case (Cons k ks)
  have kb: "k * bs + bs \<le> H" using Cons.prems by simp
  obtain R1 where R1: "for_each (\<lambda>j result. case f (get_block img (k * bs) j bs) of
                                      Inl e \<Rightarrow> Inl e
                                    | Inr v \<Rightarrow> set_block result (k * bs) j bs v)
                 (py_range W bs) res = Inr R1" "has_shape R1 H W"
    and e1: "\<forall>r<H. \<forall>c<W. R1 ! r ! c =
                 (if k * bs \<le> r \<and> r < k * bs + bs
                  then F (get_block img (k * bs) (c div bs * bs) bs) ! (r - k * bs) ! (c mod bs)
                  else res ! r ! c)"
    using row_of_blocks_entries [of bs f F img H W "k * bs" res, OF f img bs kb dv Cons.prems(1)]
    by blast
  have ks: "\<forall>k \<in> set ks. k * bs + bs \<le> H" using Cons.prems by simp
  obtain R where R: "for_each (\<lambda>i result.
                  for_each (\<lambda>j result. case f (get_block img i j bs) of
                                      Inl e \<Rightarrow> Inl e
                                    | Inr v \<Rightarrow> set_block result i j bs v)
                    (py_range W bs) result)
                 (map (\<lambda>k. k * bs) ks) R1 = Inr R" "has_shape R H W"
    and e: "\<forall>r<H. \<forall>c<W. R ! r ! c =
                 (if r div bs \<in> set ks
                  then F (get_block img (r div bs * bs) (c div bs * bs) bs) ! (r mod bs) ! (c mod bs)
                  else R1 ! r ! c)"
    using Cons.IH [OF R1(2) ks] by blast
  have run: "for_each (\<lambda>i result.
                  for_each (\<lambda>j result. case f (get_block img i j bs) of
                                      Inl e \<Rightarrow> Inl e
                                    | Inr v \<Rightarrow> set_block result i j bs v)
                    (py_range W bs) result)
                 (map (\<lambda>k. k * bs) (k # ks)) res = Inr R"
    using R1(1) R(1) by simp
  have ent: "R ! r ! c =
                 (if r div bs \<in> set (k # ks)
                  then F (get_block img (r div bs * bs) (c div bs * bs) bs) ! (r mod bs) ! (c mod bs)
                  else res ! r ! c)" if rc: "r < H" "c < W" for r c
  proof (cases "r div bs \<in> set ks")
    case True
    have "R ! r ! c = (if r div bs \<in> set ks
                  then F (get_block img (r div bs * bs) (c div bs * bs) bs) ! (r mod bs) ! (c mod bs)
                  else R1 ! r ! c)" using e rc by blast
    then show ?thesis using True by simp
  next
    case False
    have "R ! r ! c = (if r div bs \<in> set ks
                  then F (get_block img (r div bs * bs) (c div bs * bs) bs) ! (r mod bs) ! (c mod bs)
                  else R1 ! r ! c)" using e rc by blast
    then have a: "R ! r ! c = R1 ! r ! c" by (simp only: if_not_P [OF False])
    have e1rc: "R1 ! r ! c =
                 (if k * bs \<le> r \<and> r < k * bs + bs
                  then F (get_block img (k * bs) (c div bs * bs) bs) ! (r - k * bs) ! (c mod bs)
                  else res ! r ! c)"
      using e1 rc by blast
    show ?thesis
    proof (cases "r div bs = k")
      case True
      then have p: "k * bs \<le> r \<and> r < k * bs + bs" using div_eq_block [OF bs, of r k] by blast
      have "R1 ! r ! c = F (get_block img (k * bs) (c div bs * bs) bs) ! (r - k * bs) ! (c mod bs)"
        using e1rc by (simp only: if_P [OF p])
      then show ?thesis using a True sub_block_mod [OF bs, of r k] by simp
    next
      case F2: False
      then have n: "\<not> (k * bs \<le> r \<and> r < k * bs + bs)"
        using div_eq_block [OF bs, of r k] by blast
      have "R1 ! r ! c = res ! r ! c"
        using e1rc by (simp only: if_not_P [OF n])
      moreover have n2: "r div bs \<notin> set (k # ks)"
        using False F2 by auto
      ultimately show ?thesis using a by (simp only: if_not_P [OF n2] if_False)
    qed
  qed
  show ?case using run R(2) ent by blast
qed

text \<open>
  The block loop on an array whose sides are multiples of the block size: every entry
  of the result comes from the image of the block it lies in.
\<close>

lemma block_loop_entries:
  assumes f: "\<And>b. has_shape b bs bs \<Longrightarrow> f b = Inr (F b) \<and> has_shape (F b) bs bs"
    and img: "has_shape img H W" and bs: "0 < bs" and dh: "bs dvd H" and dw: "bs dvd W"
    and res: "has_shape res H W"
  shows "\<exists>R. block_loop bs f img res = Inr R \<and> has_shape R H W
           \<and> (\<forall>r<H. \<forall>c<W. R ! r ! c =
                  F (get_block img (r div bs * bs) (c div bs * bs) bs) ! (r mod bs) ! (c mod bs))"
proof (cases "H = 0")
  case True
  then have e: "img = []" "res = []" using img res by (simp_all add: has_shape_def)
  have "(bs - 1) div bs = 0" using bs by simp
  then have "py_range 0 bs = []" by (simp add: py_range_def)
  then show ?thesis using True e by (simp add: block_loop_def height_def has_shape_def)
next
  case False
  then have wd: "width img = W" using img by (simp add: has_shape_width)
  have ht: "height img = H" using img by (simp add: has_shape_height)
  have ks: "\<forall>k \<in> set [0..<H div bs]. k * bs + bs \<le> H"
    using block_index_bound [OF bs dh] by simp
  obtain R where R: "for_each (\<lambda>i result.
                  for_each (\<lambda>j result. case f (get_block img i j bs) of
                                      Inl e \<Rightarrow> Inl e
                                    | Inr v \<Rightarrow> set_block result i j bs v)
                    (py_range W bs) result)
                 (map (\<lambda>k. k * bs) [0..<H div bs]) res = Inr R" "has_shape R H W"
    and e: "\<forall>r<H. \<forall>c<W. R ! r ! c =
                 (if r div bs \<in> set [0..<H div bs]
                  then F (get_block img (r div bs * bs) (c div bs * bs) bs) ! (r mod bs) ! (c mod bs)
                  else res ! r ! c)"
    using outer_loop_entries [of bs f F img H W res "[0..<H div bs]", OF f img bs dw res ks]
    by blast
  have ent: "R ! r ! c =
                  F (get_block img (r div bs * bs) (c div bs * bs) bs) ! (r mod bs) ! (c mod bs)"
    if rc: "r < H" "c < W" for r c
  proof -
    have m: "r div bs \<in> set [0..<H div bs]" using bs dh rc(1) by (rule block_index_in_range)
    have "R ! r ! c = (if r div bs \<in> set [0..<H div bs]
                  then F (get_block img (r div bs * bs) (c div bs * bs) bs) ! (r mod bs) ! (c mod bs)
                  else res ! r ! c)" using e rc by blast
    then show ?thesis by (simp only: if_P [OF m])
  qed
  have "block_loop bs f img res = Inr R"
    using R(1) by (simp add: block_loop_def wd ht py_range_dvd [OF bs dh])
  then show ?thesis using R(2) ent by blast
qed

text \<open>A block that lies inside the array holds the array's entries.\<close>

lemma block_entry_back:
  assumes "has_shape img H W" "0 < bs" "bs dvd H" "bs dvd W" "r < H" "c < W"
  shows "get_block img (r div bs * bs) (c div bs * bs) bs ! (r mod bs) ! (c mod bs) = img ! r ! c"
    and "has_shape (get_block img (r div bs * bs) (c div bs * bs) bs) bs bs"
proof -
  have kr: "r div bs \<in> set [0..<H div bs]" using assms by (intro block_index_in_range) auto
  have kc: "c div bs \<in> set [0..<W div bs]" using assms by (intro block_index_in_range) auto
  have br: "r div bs * bs + bs \<le> H" using block_index_bound [OF assms(2,3)] kr by simp
  have bc: "c div bs * bs + bs \<le> W" using block_index_bound [OF assms(2,4)] kc by simp
  have "get_block img (r div bs * bs) (c div bs * bs) bs ! (r mod bs) ! (c mod bs)
        = img ! (r div bs * bs + r mod bs) ! (c div bs * bs + c mod bs)"
    using assms(2) by (intro get_block_nth [OF assms(1) br bc]) simp_all
  then show "get_block img (r div bs * bs) (c div bs * bs) bs ! (r mod bs) ! (c mod bs) = img ! r ! c"
    by simp
  show "has_shape (get_block img (r div bs * bs) (c div bs * bs) bs) bs bs"
    using assms(1) br bc by (rule get_block_shape)
qed

section \<open>Facts about quantize\_dct and dequantize\_dct\<close>

lemma round_half_even_err: "\<bar>real_of_int (round_half_even x) - x\<bar> \<le> 1 / 2"
proof -
  have "real_of_int \<lfloor>x\<rfloor> \<le> x" "x < real_of_int \<lfloor>x\<rfloor> + 1" by linarith+
  then show ?thesis by (auto simp: round_half_even_def Let_def)
qed

lemma round_half_even_range:
  assumes "- 32768 \<le> x" "x \<le> 32767"
  shows "- 32768 \<le> round_half_even x \<and> round_half_even x \<le> 32767"
proof -
  have e: "\<bar>real_of_int (round_half_even x) - x\<bar> \<le> 1 / 2" by (rule round_half_even_err)
  have "- 32769 < real_of_int (round_half_even x)" "real_of_int (round_half_even x) < 32768"
    using e assms by linarith+
  then have "- 32769 < round_half_even x" "round_half_even x < 32768" by linarith+
  then show ?thesis by simp
qed

lemma int16_roundtrip:
  assumes "- 32768 \<le> n" "n \<le> 32767"
  shows "sint (word_of_int n :: 16 word) = n"
proof -
  have "sint (word_of_int n :: 16 word) = signed_take_bit 15 n" by (simp add: sint_sbintrunc')
  also have "\<dots> = n" using assms by (intro signed_take_bit_int_eq_self) simp_all
  finally show ?thesis .
qed

lemma cast_int16_of_int:
  assumes "- 32768 \<le> n" "n \<le> 32767"
  shows "cast_int16 (real_of_int n) = word_of_int n"
  using assms by (simp add: cast_int16_def)

lemma pad_amount_dvd: "bs dvd n \<Longrightarrow> pad_amount n bs = 0"
  by (auto simp: pad_amount_def dvd_def)

lemma no_padding:
  assumes "has_shape g h w" "bs dvd h" "bs dvd w"
  shows "pad_amount (height g) bs = 0" "pad_amount (width g) bs = 0"
proof -
  show "pad_amount (height g) bs = 0"
    using assms by (simp add: has_shape_height pad_amount_dvd)
  show "pad_amount (width g) bs = 0"
  proof (cases "h = 0")
    case True
    then have "g = []" using assms by (simp add: has_shape_def)
    then show ?thesis by (simp add: width_def pad_amount_dvd)
  next
    case False
    then show ?thesis using assms by (simp add: has_shape_width pad_amount_dvd)
  qed
qed

lemma crop_same:
  assumes "has_shape g h w"
  shows "crop g (height g) (width g) = g"
proof (cases "h = 0")
  case True
  then have "g = []" using assms by (simp add: has_shape_def)
  then show ?thesis by (simp add: crop_def)
next
  case False
  then have w: "width g = w" and h: "height g = h"
    using assms by (simp_all add: has_shape_width has_shape_height)
  have "\<forall>r \<in> set g. length r = w" using assms by (simp add: has_shape_def list_all_iff)
  then have "map (take w) g = g" by (simp add: map_idI)
  then show ?thesis using assms by (simp add: crop_def w h has_shape_def)
qed

lemma zeros_like_shape: "has_shape g h w \<Longrightarrow> has_shape (zeros_like g) h w"
  by (simp add: zeros_like_def has_shape_arr_map)

lemma arr_map_nth:
  assumes "has_shape g h w" "i < h" "j < w"
  shows "arr_map f g ! i ! j = f (g ! i ! j)"
  using assms by (simp add: arr_map_def has_shape_nth)

lemma same_dims:
  assumes "has_shape g h w" "has_shape g' h w"
  shows "height g' = height g" "width g' = width g"
proof -
  show "height g' = height g" using assms by (simp add: has_shape_height)
  show "width g' = width g"
  proof (cases "h = 0")
    case True
    then have "g = []" "g' = []" using assms by (simp_all add: has_shape_def)
    then show ?thesis by (simp add: width_def)
  next
    case False
    then show ?thesis using assms by (simp add: has_shape_width)
  qed
qed

text \<open>The function each loop applies to a block, on an 8 by 8 block.\<close>

lemma quantize_block:
  assumes "has_shape Q 8 8" "has_shape b 8 8"
  shows "(case np_binop (/) b Q of Inl e \<Rightarrow> Inl e | Inr d \<Rightarrow> Inr (np_round d))
           = Inr (np_round (map2 (map2 (/)) b Q))
       \<and> has_shape (np_round (map2 (map2 (/)) b Q)) 8 8"
  using assms
  by (simp add: np_binop_same_shape [OF assms(2,1)] np_round_def has_shape_arr_map has_shape_map2)

lemma dequantize_block:
  assumes "has_shape Q 8 8" "has_shape b 8 8"
  shows "np_binop (*) b Q = Inr (map2 (map2 (*)) b Q) \<and> has_shape (map2 (map2 (*)) b Q) 8 8"
  using assms by (simp add: np_binop_same_shape [OF assms(2,1)] has_shape_map2)

lemma quantize_dct_entries:
  assumes tab: "quant_table quality = Inr Q" and Q: "has_shape Q 8 8"
    and C: "has_shape C h w" and dv: "8 dvd h" "8 dvd w"
  shows "\<exists>Z. quantize_dct C quality 8 = Inr Z \<and> has_shape Z h w
           \<and> (\<forall>i<h. \<forall>j<w. Z ! i ! j =
                  cast_int16 (real_of_int (round_half_even (C ! i ! j / Q ! (i mod 8) ! (j mod 8)))))"
proof -
  let ?f = "\<lambda>block. case np_binop (/) block Q of Inl e \<Rightarrow> Inl e | Inr d \<Rightarrow> Inr (np_round d)"
  let ?F = "\<lambda>b. np_round (map2 (map2 (/)) b Q)"
  have f: "\<And>b. has_shape b 8 8 \<Longrightarrow> ?f b = Inr (?F b) \<and> has_shape (?F b) 8 8"
    using quantize_block [OF Q] by blast
  obtain R where R: "block_loop 8 ?f C (zeros_like C) = Inr R" "has_shape R h w"
    and e: "\<forall>r<h. \<forall>c<w. R ! r ! c =
                  ?F (get_block C (r div 8 * 8) (c div 8 * 8) 8) ! (r mod 8) ! (c mod 8)"
    using block_loop_entries [of 8 ?f ?F C h w "zeros_like C", OF f C _ dv zeros_like_shape [OF C]]
    by auto
  have cr: "crop R (height C) (width C) = R"
    using crop_same [OF R(2)] same_dims [OF R(2) C] by simp
  have run: "quantize_dct C quality 8 = Inr (astype_int16 R)"
    using tab R(1) cr no_padding [OF C dv] by (simp add: quantize_dct_def)
  have sh: "has_shape (astype_int16 R) h w"
    using R(2) by (simp add: astype_int16_def has_shape_arr_map)
  have ent: "astype_int16 R ! i ! j =
               cast_int16 (real_of_int (round_half_even (C ! i ! j / Q ! (i mod 8) ! (j mod 8))))"
    if ij: "i < h" "j < w" for i j
  proof -
    let ?b = "get_block C (i div 8 * 8) (j div 8 * 8) 8"
    have b: "has_shape ?b 8 8" and be: "?b ! (i mod 8) ! (j mod 8) = C ! i ! j"
      using block_entry_back [OF C _ dv ij] by simp_all
    have "R ! i ! j = ?F ?b ! (i mod 8) ! (j mod 8)" using e ij by blast
    also have "\<dots> = real_of_int (round_half_even (map2 (map2 (/)) ?b Q ! (i mod 8) ! (j mod 8)))"
      unfolding np_round_def
      by (rule arr_map_nth [OF has_shape_map2 [OF b Q]]) simp_all
    also have "map2 (map2 (/)) ?b Q ! (i mod 8) ! (j mod 8) = C ! i ! j / Q ! (i mod 8) ! (j mod 8)"
      using map2_nth [OF b Q, of "i mod 8" "j mod 8" "(/)"] be by simp
    finally have r: "R ! i ! j = real_of_int (round_half_even (C ! i ! j / Q ! (i mod 8) ! (j mod 8)))" .
    have "astype_int16 R ! i ! j = cast_int16 (R ! i ! j)"
      unfolding astype_int16_def by (rule arr_map_nth [OF R(2) ij])
    then show ?thesis by (simp only: r)
  qed
  show ?thesis using run sh ent by blast
qed

lemma dequantize_dct_entries:
  assumes tab: "quant_table quality = Inr Q" and Q: "has_shape Q 8 8"
    and Z: "has_shape Z h w" and dv: "8 dvd h" "8 dvd w"
  shows "\<exists>D. dequantize_dct Z quality 8 = Inr D \<and> has_shape D h w
           \<and> (\<forall>i<h. \<forall>j<w. D ! i ! j = real_of_int (sint (Z ! i ! j)) * Q ! (i mod 8) ! (j mod 8))"
proof -
  let ?img = "astype_float64 Z"
  let ?f = "\<lambda>block. np_binop (*) block Q"
  let ?F = "\<lambda>b. map2 (map2 (*)) b Q"
  have img: "has_shape ?img h w" using Z by (simp add: astype_float64_def has_shape_arr_map)
  have f: "\<And>b. has_shape b 8 8 \<Longrightarrow> ?f b = Inr (?F b) \<and> has_shape (?F b) 8 8"
    using dequantize_block [OF Q] by blast
  obtain R where R: "block_loop 8 ?f ?img (zeros_like ?img) = Inr R" "has_shape R h w"
    and e: "\<forall>r<h. \<forall>c<w. R ! r ! c =
                  ?F (get_block ?img (r div 8 * 8) (c div 8 * 8) 8) ! (r mod 8) ! (c mod 8)"
    using block_loop_entries [of 8 ?f ?F ?img h w "zeros_like ?img",
        OF f img _ dv zeros_like_shape [OF img]]
    by auto
  have cr: "crop R (height ?img) (width ?img) = R"
    using crop_same [OF R(2)] same_dims [OF R(2) img] by simp
  have run: "dequantize_dct Z quality 8 = Inr R"
    using tab R(1) cr no_padding [OF img dv] by (simp add: dequantize_dct_def Let_def)
  have ent: "R ! i ! j = real_of_int (sint (Z ! i ! j)) * Q ! (i mod 8) ! (j mod 8)"
    if ij: "i < h" "j < w" for i j
  proof -
    let ?b = "get_block ?img (i div 8 * 8) (j div 8 * 8) 8"
    have b: "has_shape ?b 8 8" and be: "?b ! (i mod 8) ! (j mod 8) = ?img ! i ! j"
      using block_entry_back [OF img _ dv ij] by simp_all
    have z: "?img ! i ! j = real_of_int (sint (Z ! i ! j))"
      unfolding astype_float64_def by (rule arr_map_nth [OF Z ij])
    have "R ! i ! j = ?F ?b ! (i mod 8) ! (j mod 8)" using e ij by blast
    also have "\<dots> = ?b ! (i mod 8) ! (j mod 8) * Q ! (i mod 8) ! (j mod 8)"
      by (rule map2_nth [OF b Q]) simp_all
    finally show ?thesis using be z by simp
  qed
  show ?thesis using run R(2) ent by blast
qed


lemma quant_table_result:
  assumes "quant_table quality = Inr Q"
  shows "has_shape Q 8 8" and "\<And>i j. i < 8 \<Longrightarrow> j < 8 \<Longrightarrow> 1 \<le> Q ! i ! j \<and> Q ! i ! j \<le> 255"
proof -
  obtain s where "Q = scaled_table s"
    using assms by (auto simp: quant_table_def split: sum.splits)
  then show "has_shape Q 8 8" and "\<And>i j. i < 8 \<Longrightarrow> j < 8 \<Longrightarrow> 1 \<le> Q ! i ! j \<and> Q ! i ! j \<le> 255"
    using scaled_table_shape scaled_table_bounds by simp_all
qed

lemma requantized_error:
  assumes "0 < (q::real)"
  shows "\<bar>real_of_int (round_half_even (c / q)) * q - c\<bar> \<le> q / 2"
proof -
  have "real_of_int (round_half_even (c / q)) * q - c = (real_of_int (round_half_even (c / q)) - c / q) * q"
    using assms by (simp add: algebra_simps)
  then have "\<bar>real_of_int (round_half_even (c / q)) * q - c\<bar>
           = \<bar>real_of_int (round_half_even (c / q)) - c / q\<bar> * q"
    using assms by (simp add: abs_mult)
  also have "\<dots> \<le> (1 / 2) * q"
    using assms round_half_even_err [of "c / q"] by (intro mult_right_mono) simp_all
  finally show ?thesis by simp
qed

text \<open>
  C10. For a quality in [1,100] with table \<open>Q\<close> and a coefficient array whose sides are
  multiples of 8 (the block size of the call) and whose rounded quotients fit in int16:
  quantizing and dequantizing both succeed, and every entry of the result differs from
  the entry of the input by at most half the divisor at its position in the block,
  hence by at most 127.5.
\<close>

theorem quantization_error_bound:
  assumes "1 \<le> quality" "quality \<le> 100"
    and C: "has_shape C h w" and dv: "8 dvd h" "8 dvd w"
    and tab: "quant_table quality = Inr Q"
    and fit: "\<forall>i<h. \<forall>j<w. - 32768 \<le> round_half_even (C ! i ! j / Q ! (i mod 8) ! (j mod 8))
                           \<and> round_half_even (C ! i ! j / Q ! (i mod 8) ! (j mod 8)) \<le> 32767"
  shows "\<exists>Z D. quantize_dct C quality 8 = Inr Z \<and> dequantize_dct Z quality 8 = Inr D
           \<and> has_shape D h w
           \<and> (\<forall>i<h. \<forall>j<w. \<bar>D ! i ! j - C ! i ! j\<bar> \<le> Q ! (i mod 8) ! (j mod 8) / 2
                           \<and> \<bar>D ! i ! j - C ! i ! j\<bar> \<le> 127.5)"
proof -
  have Q: "has_shape Q 8 8" using tab by (rule quant_table_result)
  obtain Z where Z: "quantize_dct C quality 8 = Inr Z" "has_shape Z h w"
    and ze: "\<forall>i<h. \<forall>j<w. Z ! i ! j =
                  cast_int16 (real_of_int (round_half_even (C ! i ! j / Q ! (i mod 8) ! (j mod 8))))"
    using quantize_dct_entries [OF tab Q C dv] by blast
  obtain D where D: "dequantize_dct Z quality 8 = Inr D" "has_shape D h w"
    and de: "\<forall>i<h. \<forall>j<w. D ! i ! j = real_of_int (sint (Z ! i ! j)) * Q ! (i mod 8) ! (j mod 8)"
    using dequantize_dct_entries [OF tab Q Z(2) dv] by blast
  have "\<bar>D ! i ! j - C ! i ! j\<bar> \<le> Q ! (i mod 8) ! (j mod 8) / 2
        \<and> \<bar>D ! i ! j - C ! i ! j\<bar> \<le> 127.5" if ij: "i < h" "j < w" for i j
  proof -
    let ?q = "Q ! (i mod 8) ! (j mod 8)"
    let ?n = "round_half_even (C ! i ! j / ?q)"
    have qb: "1 \<le> ?q \<and> ?q \<le> 255"
      using quant_table_result(2) [OF tab, of "i mod 8" "j mod 8"] by simp
    have n: "- 32768 \<le> ?n \<and> ?n \<le> 32767" using fit ij by blast
    then have "sint (word_of_int ?n :: 16 word) = ?n" by (intro int16_roundtrip) simp_all
    moreover have "Z ! i ! j = cast_int16 (real_of_int ?n)" using ze ij by blast
    then have "Z ! i ! j = word_of_int ?n" using n by (simp add: cast_int16_of_int)
    moreover have "D ! i ! j = real_of_int (sint (Z ! i ! j)) * ?q" using de ij by blast
    ultimately have d: "D ! i ! j = real_of_int ?n * ?q" by simp
    have "\<bar>real_of_int ?n * ?q - C ! i ! j\<bar> \<le> ?q / 2"
      using qb by (intro requantized_error) simp
    then have a: "\<bar>D ! i ! j - C ! i ! j\<bar> \<le> ?q / 2" using d by simp
    then have "\<bar>D ! i ! j - C ! i ! j\<bar> \<le> 127.5" using qb by simp
    then show ?thesis using a by simp
  qed
  then show ?thesis using Z(1) D by blast
qed

theorem quantization_error_bound_witness:
  "\<exists>Z D. quantize_dct (replicate 8 (replicate 8 100)) 50 8 = Inr Z
         \<and> dequantize_dct Z 50 8 = Inr D \<and> has_shape D 8 8
         \<and> (\<forall>i<8. \<forall>j<8. \<bar>D ! i ! j - replicate 8 (replicate 8 100) ! i ! j\<bar>
                              \<le> Q50 ! (i mod 8) ! (j mod 8) / 2
                         \<and> \<bar>D ! i ! j - replicate 8 (replicate 8 100) ! i ! j\<bar> \<le> 127.5)"
proof -
  have q: "(1::int) \<le> 50" "(50::int) \<le> 100" by simp_all
  have C: "has_shape (replicate 8 (replicate 8 (100::real))) 8 8"
    by (simp add: has_shape_def list_all_iff)
  have dv: "(8::nat) dvd 8" by simp
  have tab: "quant_table 50 = Inr Q50" by (simp add: quant_table_at_50 scaled_table_50)
  have fit: "\<forall>i<8. \<forall>j<8.
      - 32768 \<le> round_half_even (replicate 8 (replicate 8 100) ! i ! j / Q50 ! (i mod 8) ! (j mod 8))
      \<and> round_half_even (replicate 8 (replicate 8 100) ! i ! j / Q50 ! (i mod 8) ! (j mod 8)) \<le> 32767"
  proof (intro allI impI)
    fix i j :: nat
    assume ij: "i < 8" "j < 8"
    have qb: "1 \<le> Q50 ! (i mod 8) ! (j mod 8)"
      using quant_table_result(2) [OF tab, of "i mod 8" "j mod 8"] by simp
    then have "0 \<le> 100 / Q50 ! (i mod 8) ! (j mod 8)" "100 / Q50 ! (i mod 8) ! (j mod 8) \<le> 100"
      by (simp_all add: divide_le_eq)
    then have "- 32768 \<le> round_half_even (100 / Q50 ! (i mod 8) ! (j mod 8))
         \<and> round_half_even (100 / Q50 ! (i mod 8) ! (j mod 8)) \<le> 32767"
      by (intro round_half_even_range) linarith+
    then show "- 32768 \<le> round_half_even (replicate 8 (replicate 8 100) ! i ! j / Q50 ! (i mod 8) ! (j mod 8))
      \<and> round_half_even (replicate 8 (replicate 8 100) ! i ! j / Q50 ! (i mod 8) ! (j mod 8)) \<le> 32767"
      using ij by simp
  qed
  show ?thesis using quantization_error_bound [OF q C dv dv tab fit] .
qed

section \<open>Facts about the DCT\<close>

text \<open>The sum of cosines over equally spaced angles.\<close>

lemma cos_sum_telescope:
  "2 * sin (t / 2) * (\<Sum>k<N. cos (real k * t)) = sin ((real N - 1 / 2) * t) + sin (t / 2)"
proof (induction N)
  case 0
  have "sin ((0 - 1 / 2) * t) = - sin (t / 2)"
  proof -
    have "(0 - 1 / 2) * t = - (t / 2)" by simp
    then show ?thesis by (simp only: sin_minus)
  qed
  then show ?case by simp
next
  case (Suc N)
  have a: "(real (Suc N) - 1 / 2) * t = real N * t + t / 2"
    by (simp add: algebra_simps)
  have b: "(real N - 1 / 2) * t = real N * t - t / 2"
    by (simp add: algebra_simps)
  have "2 * sin (t / 2) * (\<Sum>k<Suc N. cos (real k * t))
        = 2 * sin (t / 2) * (\<Sum>k<N. cos (real k * t)) + 2 * sin (t / 2) * cos (real N * t)"
    by (simp add: algebra_simps)
  also have "\<dots> = sin (real N * t - t / 2) + sin (t / 2) + 2 * sin (t / 2) * cos (real N * t)"
    using Suc.IH b by simp
  also have "\<dots> = sin (real N * t + t / 2) + sin (t / 2)"
    by (simp add: sin_add sin_diff)
  finally show ?case using a by simp
qed

lemma cos_sum_value:
  assumes "0 < N" "0 < j" "j < 2 * N"
  shows "(\<Sum>k<N. cos (real k * (pi * real j / real N))) = (if even j then 0 else 1)"
proof -
  define t where "t = pi * real j / real N"
  have tpos: "0 < t / 2" using assms by (simp add: t_def)
  have "real j < 2 * real N" using assms by (metis of_nat_less_iff of_nat_mult of_nat_numeral)
  then have "pi * real j < pi * (2 * real N)" by (simp add: mult_strict_left_mono)
  then have "t < 2 * pi" using assms by (simp add: t_def divide_less_eq algebra_simps)
  then have s: "0 < sin (t / 2)" using tpos by (intro sin_gt_zero) simp_all
  have "(real N - 1 / 2) * t = pi * real j - t / 2"
    using assms by (simp add: t_def algebra_simps)
  then have "sin ((real N - 1 / 2) * t) = - ((- 1) ^ j) * sin (t / 2)"
    by (simp add: sin_diff)
  then have "2 * sin (t / 2) * (\<Sum>k<N. cos (real k * t)) = (1 - (- 1) ^ j) * sin (t / 2)"
    using cos_sum_telescope [of t N] by (simp add: algebra_simps)
  then have "sin (t / 2) * (2 * (\<Sum>k<N. cos (real k * t))) = sin (t / 2) * (1 - (- 1) ^ j)"
    by (simp add: mult_ac)
  then have "2 * (\<Sum>k<N. cos (real k * t)) = 1 - (- 1) ^ j"
    using s by (simp only: mult_left_cancel [OF less_imp_neq [THEN not_sym]])
  then show ?thesis by (auto simp: t_def)
qed


lemma cos_sum_zero_angle: "(\<Sum>k<N. cos (real k * (pi * 0 / real N))) = real N"
  by simp

lemma cos_product_split:
  assumes "0 < N"
  shows "2 * (cos (pi * real k * (2 * real n + 1) / (2 * real N))
              * cos (pi * real k * (2 * real m + 1) / (2 * real N)))
         = cos (real k * (pi * (real n - real m) / real N))
           + cos (real k * (pi * real (n + m + 1) / real N))"
proof -
  let ?w = "pi * real k * (2 * real n + 1) / (2 * real N)"
  let ?z = "pi * real k * (2 * real m + 1) / (2 * real N)"
  have N: "real N \<noteq> 0" using assms by simp
  have d: "?w - ?z = real k * (pi * (real n - real m) / real N)"
    using N by (simp add: field_simps)
  have s: "?w + ?z = real k * (pi * real (n + m + 1) / real N)"
    using N by (simp add: field_simps)
  have "2 * (cos ?w * cos ?z) = cos (?w - ?z) + cos (?w + ?z)"
    by (simp add: cos_times_cos)
  then show ?thesis by (simp only: d s)
qed

lemma kernel_product:
  assumes "0 < N"
  shows "dct_kernel N k n * dct_kernel N k m
         = (if k = 0 then 1 else 2) / real N
           * (cos (pi * real k * (2 * real n + 1) / (2 * real N))
              * cos (pi * real k * (2 * real m + 1) / (2 * real N)))"
proof -
  define a where "a = cos (pi * real k * (2 * real n + 1) / (2 * real N))"
  define b where "b = cos (pi * real k * (2 * real m + 1) / (2 * real N))"
  define c where "c = (if k = 0 then sqrt (1 / real N) else sqrt (2 / real N))"
  have "sqrt (1 / real N) * sqrt (1 / real N) = 1 / real N"
    using assms by (simp add: real_sqrt_divide)
  moreover have "sqrt (2 / real N) * sqrt (2 / real N) = 2 / real N"
    using assms by simp
  ultimately have cc: "c * c = (if k = 0 then 1 else 2) / real N"
    by (simp add: c_def)
  have "dct_kernel N k n * dct_kernel N k m = (c * a) * (c * b)"
    by (simp add: dct_kernel_def a_def b_def c_def)
  also have "\<dots> = (c * c) * (a * b)" by (simp add: mult_ac)
  finally show ?thesis by (simp only: cc a_def b_def)
qed

lemma neg_angle:
  "real k * (pi * (b - a) / c) = - (real k * (pi * (a - b) / c))"
proof -
  have "b - a = - (a - b)" by simp
  then have "pi * (b - a) / c = - (pi * (a - b) / c)" by (simp only: mult_minus_right minus_divide_left)
  then show ?thesis by (simp only: mult_minus_right)
qed

lemma cos_diff_sum:
  assumes "0 < N" "n < N" "m < N" "n \<noteq> m"
  shows "(\<Sum>k<N. cos (real k * (pi * (real n - real m) / real N)))
         + (\<Sum>k<N. cos (real k * (pi * real (n + m + 1) / real N))) = 1"
proof -
  define d where "d = (if m < n then n - m else m - n)"
  have dpos: "0 < d" "d < 2 * N" using assms by (auto simp: d_def)
  have spos: "0 < n + m + 1" "n + m + 1 < 2 * N" using assms by auto
  have par: "even d \<longleftrightarrow> odd (n + m + 1)" using assms by (auto simp: d_def)
  have "cos (real k * (pi * (real n - real m) / real N)) = cos (real k * (pi * real d / real N))" for k
  proof (cases "m < n")
    case True
    then have "real d = real n - real m" by (simp add: d_def)
    then show ?thesis by simp
  next
    case False
    then have "real d = real m - real n" using assms by (simp add: d_def)
    then have "real k * (pi * real d / real N) = - (real k * (pi * (real n - real m) / real N))"
      using neg_angle [of k "real m" "real n" "real N"] by (simp only:)
    then show ?thesis by (simp only: cos_minus)
  qed
  then have "(\<Sum>k<N. cos (real k * (pi * (real n - real m) / real N)))
           = (\<Sum>k<N. cos (real k * (pi * real d / real N)))" by simp
  then show ?thesis
    using cos_sum_value [OF assms(1) dpos] cos_sum_value [OF assms(1) spos] par by simp
qed

lemma cos_same_sum:
  assumes "0 < N" "n < N"
  shows "(\<Sum>k<N. cos (real k * (pi * (real n - real n) / real N)))
         + (\<Sum>k<N. cos (real k * (pi * real (n + n + 1) / real N))) = real N + 1"
proof -
  have spos: "0 < n + n + 1" "n + n + 1 < 2 * N" using assms by auto
  have "odd (n + n + 1)" by simp
  then show ?thesis using cos_sum_value [OF assms(1) spos] by simp
qed

lemma dct_kernel_orthonormal:
  assumes "0 < N" "n < N" "m < N"
  shows "(\<Sum>k<N. dct_kernel N k n * dct_kernel N k m) = (if n = m then 1 else 0)"
proof -
  let ?g = "\<lambda>k. cos (pi * real k * (2 * real n + 1) / (2 * real N))
              * cos (pi * real k * (2 * real m + 1) / (2 * real N))"
  have w: "(if k = 0 then 1 else 2) / real N * ?g k
           = (2 * ?g k) / real N - (if k = 0 then ?g 0 / real N else 0)" for k :: nat
    by (simp add: field_simps)
  have "(\<Sum>k<N. dct_kernel N k n * dct_kernel N k m)
        = (\<Sum>k<N. (2 * ?g k) / real N - (if k = 0 then ?g 0 / real N else 0))"
    by (simp only: kernel_product [OF assms(1)] w)
  also have "\<dots> = (\<Sum>k<N. (2 * ?g k) / real N) - (\<Sum>k<N. if k = 0 then ?g 0 / real N else 0)"
    by (rule sum_subtractf)
  also have "(\<Sum>k<N. if k = 0 then ?g 0 / real N else 0) = 1 / real N"
    using assms(1) by (simp add: lessThan_def)
  also have "(\<Sum>k<N. (2 * ?g k) / real N) = (\<Sum>k<N. 2 * ?g k) / real N"
    by (simp add: sum_divide_distrib)
  also have "(\<Sum>k<N. 2 * ?g k)
             = (\<Sum>k<N. cos (real k * (pi * (real n - real m) / real N)))
               + (\<Sum>k<N. cos (real k * (pi * real (n + m + 1) / real N)))"
    by (simp only: cos_product_split [OF assms(1)] sum.distrib)
  finally have e: "(\<Sum>k<N. dct_kernel N k n * dct_kernel N k m)
      = ((\<Sum>k<N. cos (real k * (pi * (real n - real m) / real N)))
               + (\<Sum>k<N. cos (real k * (pi * real (n + m + 1) / real N)))) / real N - 1 / real N" .
  show ?thesis
  proof (cases "n = m")
    case True
    then show ?thesis using e cos_same_sum [OF assms(1,2)] assms(1) by (simp add: field_simps)
  next
    case False
    then show ?thesis using e cos_diff_sum [OF assms False] by simp
  qed
qed


text \<open>The two library transforms in matrix form.\<close>

lemma length_dct_ortho: "length (dct_ortho x) = length x"
  by (simp add: dct_ortho_def Let_def)

lemma length_idct_ortho: "length (idct_ortho y) = length y"
  by (simp add: idct_ortho_def Let_def)

lemma dct_scale:
  assumes "0 < N"
  shows "(if k = 0 then sqrt (1 / (4 * real N)) else sqrt (1 / (2 * real N))) * 2
         = (if k = (0::nat) then sqrt (1 / real N) else sqrt (2 / real N))"
proof -
  have "sqrt (1 / (4 * real N)) = sqrt (1 / real N) / 2"
    by (simp add: real_sqrt_divide real_sqrt_mult)
  moreover have "sqrt (2 / real N) = sqrt (4 * (1 / (2 * real N)))" by simp
  then have "sqrt (2 / real N) = 2 * sqrt (1 / (2 * real N))"
    by (simp only: real_sqrt_mult) simp
  ultimately show ?thesis by simp
qed

lemma dct_ortho_nth:
  assumes "k < length x"
  shows "dct_ortho x ! k = (\<Sum>n<length x. dct_kernel (length x) k n * x ! n)"
proof -
  define N where "N = length x"
  define c where "c = (if k = 0 then sqrt (1 / (4 * real N)) else sqrt (1 / (2 * real N)))"
  have N: "0 < N" using assms by (auto simp: N_def)
  have "dct_ortho x ! k
        = c * (2 * (\<Sum>n<N. x ! n * cos (pi * real k * (2 * real n + 1) / (2 * real N))))"
    using assms by (simp add: dct_ortho_def Let_def N_def c_def)
  also have "\<dots> = (c * 2) * (\<Sum>n<N. x ! n * cos (pi * real k * (2 * real n + 1) / (2 * real N)))"
    by simp
  also have "\<dots> = (\<Sum>n<N. (c * 2) * (x ! n * cos (pi * real k * (2 * real n + 1) / (2 * real N))))"
    by (rule sum_distrib_left)
  also have "\<dots> = (\<Sum>n<N. dct_kernel N k n * x ! n)"
    unfolding c_def dct_scale [OF N] by (simp add: dct_kernel_def mult_ac)
  finally show ?thesis by (simp add: N_def)
qed

lemma idct_ortho_nth:
  assumes "n < length y"
  shows "idct_ortho y ! n = (\<Sum>k<length y. dct_kernel (length y) k n * y ! k)"
proof -
  define N where "N = length y"
  let ?g = "\<lambda>k. y ! k * cos (pi * real k * (2 * real n + 1) / (2 * real N))"
  have N: "0 < N" using assms by (auto simp: N_def)
  have "(\<Sum>k<N. dct_kernel N k n * y ! k) = (\<Sum>k = 0..<N. dct_kernel N k n * y ! k)"
    by (simp add: lessThan_atLeast0)
  also have "\<dots> = dct_kernel N 0 n * y ! 0 + (\<Sum>k = Suc 0..<N. dct_kernel N k n * y ! k)"
    using N by (rule sum.atLeast_Suc_lessThan)
  also have "dct_kernel N 0 n * y ! 0 = y ! 0 / sqrt (real N)"
    by (simp add: dct_kernel_def real_sqrt_divide)
  also have "(\<Sum>k = Suc 0..<N. dct_kernel N k n * y ! k) = (\<Sum>k = Suc 0..<N. sqrt (2 / real N) * ?g k)"
    by (intro sum.cong refl) (simp add: dct_kernel_def)
  also have "\<dots> = sqrt (2 / real N) * (\<Sum>k = Suc 0..<N. ?g k)"
    by (simp only: sum_distrib_left)
  finally have "(\<Sum>k<N. dct_kernel N k n * y ! k)
                = y ! 0 / sqrt (real N) + sqrt (2 / real N) * (\<Sum>k = Suc 0..<N. ?g k)" .
  moreover have "idct_ortho y ! n
                = y ! 0 / sqrt (real N) + sqrt (2 / real N) * (\<Sum>k = Suc 0..<N. ?g k)"
    using assms by (simp add: idct_ortho_def Let_def N_def)
  ultimately show ?thesis by (simp add: N_def)
qed

lemma kernel_inverse:
  assumes "0 < N" "n < N"
  shows "(\<Sum>k<N. dct_kernel N k n * (\<Sum>m<N. dct_kernel N k m * x m)) = x n"
proof -
  have "(\<Sum>k<N. dct_kernel N k n * (\<Sum>m<N. dct_kernel N k m * x m))
        = (\<Sum>k<N. \<Sum>m<N. (dct_kernel N k n * dct_kernel N k m) * x m)"
    by (simp add: sum_distrib_left mult_ac)
  also have "\<dots> = (\<Sum>m<N. \<Sum>k<N. (dct_kernel N k n * dct_kernel N k m) * x m)"
    by (rule sum.swap)
  also have "\<dots> = (\<Sum>m<N. (\<Sum>k<N. dct_kernel N k n * dct_kernel N k m) * x m)"
    by (simp add: sum_distrib_right)
  also have "\<dots> = (\<Sum>m<N. (if n = m then 1 else 0) * x m)"
    by (intro sum.cong refl) (simp add: dct_kernel_orthonormal [OF assms])
  also have "\<dots> = (\<Sum>m<N. if m = n then x m else 0)"
    by (intro sum.cong refl) auto
  also have "\<dots> = x n" using assms by simp
  finally show ?thesis .
qed


lemma np_dct_entries:
  assumes "has_shape X R N"
  shows "has_shape (np_dct X) R N"
    and "\<And>r k. r < R \<Longrightarrow> k < N \<Longrightarrow> np_dct X ! r ! k = (\<Sum>m<N. dct_kernel N k m * X ! r ! m)"
proof -
  have len: "length X = R" and row: "\<And>r. r < R \<Longrightarrow> length (X ! r) = N"
    using assms by (simp_all add: has_shape_nth)
  show "has_shape (np_dct X) R N"
    using len row by (simp add: has_shape_nth np_dct_def length_dct_ortho)
  fix r k assume rk: "r < R" "k < N"
  then have "np_dct X ! r ! k = dct_ortho (X ! r) ! k" using len by (simp add: np_dct_def)
  then show "np_dct X ! r ! k = (\<Sum>m<N. dct_kernel N k m * X ! r ! m)"
    using dct_ortho_nth [of k "X ! r"] row [OF rk(1)] rk(2) by simp
qed

lemma np_idct_entries:
  assumes "has_shape X R N"
  shows "has_shape (np_idct X) R N"
    and "\<And>r n. r < R \<Longrightarrow> n < N \<Longrightarrow> np_idct X ! r ! n = (\<Sum>k<N. dct_kernel N k n * X ! r ! k)"
proof -
  have len: "length X = R" and row: "\<And>r. r < R \<Longrightarrow> length (X ! r) = N"
    using assms by (simp_all add: has_shape_nth)
  show "has_shape (np_idct X) R N"
    using len row by (simp add: has_shape_nth np_idct_def length_idct_ortho)
  fix r n assume rn: "r < R" "n < N"
  then have "np_idct X ! r ! n = idct_ortho (X ! r) ! n" using len by (simp add: np_idct_def)
  then show "np_idct X ! r ! n = (\<Sum>k<N. dct_kernel N k n * X ! r ! k)"
    using idct_ortho_nth [of n "X ! r"] row [OF rn(1)] rn(2) by simp
qed

lemma transpose_entries:
  assumes "has_shape X R C" "0 < R"
  shows "has_shape (transpose X) C R"
    and "\<And>c r. c < C \<Longrightarrow> r < R \<Longrightarrow> transpose X ! c ! r = X ! r ! c"
proof -
  have len: "length X = R" and row: "\<And>r. r < length X \<Longrightarrow> length (X ! r) = C"
    using assms by (simp_all add: has_shape_nth)
  have ne: "X = [] \<Longrightarrow> C = 0" using assms len by auto
  have t: "transpose X = map (\<lambda>i. map (\<lambda>j. X ! j ! i) [0..<length X]) [0..<C]"
    using ne row by (rule transpose_rectangle)
  show "has_shape (transpose X) C R" by (simp add: t has_shape_nth len)
  fix c r assume "c < C" "r < R"
  then show "transpose X ! c ! r = X ! r ! c" by (simp add: t len)
qed

lemma DCT2D_entries:
  assumes a: "has_shape a N N" and N: "0 < N"
  shows "has_shape (DCT2D a) N N"
    and "\<And>k l. k < N \<Longrightarrow> l < N \<Longrightarrow>
           DCT2D a ! k ! l = (\<Sum>m2<N. dct_kernel N l m2 * (\<Sum>m1<N. dct_kernel N k m1 * a ! m1 ! m2))"
proof -
  have t1: "has_shape (transpose a) N N" using a N by (rule transpose_entries)
  have d1: "has_shape (np_dct (transpose a)) N N" using t1 by (rule np_dct_entries)
  have t2: "has_shape (transpose (np_dct (transpose a))) N N" using d1 N by (rule transpose_entries)
  show "has_shape (DCT2D a) N N"
    unfolding DCT2D_def using t2 by (rule np_dct_entries)
  fix k l assume kl: "k < N" "l < N"
  have inner: "transpose (np_dct (transpose a)) ! k ! m2 = (\<Sum>m1<N. dct_kernel N k m1 * a ! m1 ! m2)"
    if m2: "m2 < N" for m2
  proof -
    have "transpose (np_dct (transpose a)) ! k ! m2 = np_dct (transpose a) ! m2 ! k"
      using transpose_entries(2) [OF d1 N kl(1) m2] .
    also have "\<dots> = (\<Sum>m1<N. dct_kernel N k m1 * transpose a ! m2 ! m1)"
      using np_dct_entries(2) [OF t1 m2 kl(1)] .
    also have "\<dots> = (\<Sum>m1<N. dct_kernel N k m1 * a ! m1 ! m2)"
      by (intro sum.cong refl) (simp add: transpose_entries(2) [OF a N m2])
    finally show ?thesis .
  qed
  have "DCT2D a ! k ! l = (\<Sum>m2<N. dct_kernel N l m2 * transpose (np_dct (transpose a)) ! k ! m2)"
    unfolding DCT2D_def using np_dct_entries(2) [OF t2 kl] .
  also have "\<dots> = (\<Sum>m2<N. dct_kernel N l m2 * (\<Sum>m1<N. dct_kernel N k m1 * a ! m1 ! m2))"
    by (intro sum.cong refl) (simp add: inner)
  finally show "DCT2D a ! k ! l
      = (\<Sum>m2<N. dct_kernel N l m2 * (\<Sum>m1<N. dct_kernel N k m1 * a ! m1 ! m2))" .
qed

lemma IDCT2D_entries:
  assumes c: "has_shape c N N" and N: "0 < N"
  shows "has_shape (IDCT2D c) N N"
    and "\<And>n j. n < N \<Longrightarrow> j < N \<Longrightarrow>
           IDCT2D c ! n ! j = (\<Sum>l<N. dct_kernel N l j * (\<Sum>k<N. dct_kernel N k n * c ! k ! l))"
proof -
  have t1: "has_shape (transpose c) N N" using c N by (rule transpose_entries)
  have d1: "has_shape (np_idct (transpose c)) N N" using t1 by (rule np_idct_entries)
  have t2: "has_shape (transpose (np_idct (transpose c))) N N" using d1 N by (rule transpose_entries)
  show "has_shape (IDCT2D c) N N"
    unfolding IDCT2D_def using t2 by (rule np_idct_entries)
  fix n j assume nj: "n < N" "j < N"
  have inner: "transpose (np_idct (transpose c)) ! n ! l = (\<Sum>k<N. dct_kernel N k n * c ! k ! l)"
    if l: "l < N" for l
  proof -
    have "transpose (np_idct (transpose c)) ! n ! l = np_idct (transpose c) ! l ! n"
      using transpose_entries(2) [OF d1 N nj(1) l] .
    also have "\<dots> = (\<Sum>k<N. dct_kernel N k n * transpose c ! l ! k)"
      using np_idct_entries(2) [OF t1 l nj(1)] .
    also have "\<dots> = (\<Sum>k<N. dct_kernel N k n * c ! k ! l)"
      by (intro sum.cong refl) (simp add: transpose_entries(2) [OF c N l])
    finally show ?thesis .
  qed
  have "IDCT2D c ! n ! j = (\<Sum>l<N. dct_kernel N l j * transpose (np_idct (transpose c)) ! n ! l)"
    unfolding IDCT2D_def using np_idct_entries(2) [OF t2 nj] .
  also have "\<dots> = (\<Sum>l<N. dct_kernel N l j * (\<Sum>k<N. dct_kernel N k n * c ! k ! l))"
    by (intro sum.cong refl) (simp add: inner)
  finally show "IDCT2D c ! n ! j
      = (\<Sum>l<N. dct_kernel N l j * (\<Sum>k<N. dct_kernel N k n * c ! k ! l))" .
qed

text \<open>The inverse transform undoes the transform on a square block.\<close>

lemma IDCT2D_DCT2D:
  assumes a: "has_shape a N N" and N: "0 < N"
  shows "IDCT2D (DCT2D a) = a"
proof -
  have d: "has_shape (DCT2D a) N N" using a N by (rule DCT2D_entries)
  have i: "has_shape (IDCT2D (DCT2D a)) N N" using d N by (rule IDCT2D_entries)
  have "IDCT2D (DCT2D a) ! n ! j = a ! n ! j" if nj: "n < N" "j < N" for n j
  proof -
    have col: "(\<Sum>k<N. dct_kernel N k n * DCT2D a ! k ! l) = (\<Sum>m2<N. dct_kernel N l m2 * a ! n ! m2)"
      if l: "l < N" for l
    proof -
      have "(\<Sum>k<N. dct_kernel N k n * DCT2D a ! k ! l)
            = (\<Sum>k<N. dct_kernel N k n
                 * (\<Sum>m2<N. dct_kernel N l m2 * (\<Sum>m1<N. dct_kernel N k m1 * a ! m1 ! m2)))"
        by (intro sum.cong refl) (simp add: DCT2D_entries(2) [OF a N _ l])
      also have "\<dots> = (\<Sum>k<N. \<Sum>m2<N. dct_kernel N l m2
                 * (dct_kernel N k n * (\<Sum>m1<N. dct_kernel N k m1 * a ! m1 ! m2)))"
        by (simp add: sum_distrib_left mult.left_commute)
      also have "\<dots> = (\<Sum>m2<N. \<Sum>k<N. dct_kernel N l m2
                 * (dct_kernel N k n * (\<Sum>m1<N. dct_kernel N k m1 * a ! m1 ! m2)))"
        by (rule sum.swap)
      also have "\<dots> = (\<Sum>m2<N. dct_kernel N l m2
                 * (\<Sum>k<N. dct_kernel N k n * (\<Sum>m1<N. dct_kernel N k m1 * a ! m1 ! m2)))"
        by (simp only: sum_distrib_left)
      also have "\<dots> = (\<Sum>m2<N. dct_kernel N l m2 * a ! n ! m2)"
        by (simp only: kernel_inverse [OF N nj(1), of "\<lambda>m1. a ! m1 ! _"])
      finally show ?thesis .
    qed
    have "IDCT2D (DCT2D a) ! n ! j
          = (\<Sum>l<N. dct_kernel N l j * (\<Sum>k<N. dct_kernel N k n * DCT2D a ! k ! l))"
      using IDCT2D_entries(2) [OF d N nj] .
    also have "\<dots> = (\<Sum>l<N. dct_kernel N l j * (\<Sum>m2<N. dct_kernel N l m2 * a ! n ! m2))"
      by (intro sum.cong refl) (simp add: col)
    also have "\<dots> = a ! n ! j"
      by (rule kernel_inverse [OF N nj(2), of "\<lambda>m2. a ! n ! m2"])
    finally show ?thesis .
  qed
  then show ?thesis using grid_eq_iff [OF i a] by blast
qed

section \<open>Facts about block\_dct and block\_idct\<close>

lemma block_start_index:
  assumes "0 < (bs::nat)" "k < bs"
  shows "(K * bs + k) div bs = K" "(K * bs + k) mod bs = k"
  using assms by simp_all

text \<open>
  After the block loop, the block of the result at a block position is the image of the
  block of the input at that position.
\<close>

lemma block_of_result:
  assumes f: "\<And>b. has_shape b bs bs \<Longrightarrow> has_shape (F b) bs bs"
    and img: "has_shape img H W" and R: "has_shape R H W" and bs: "0 < bs"
    and e: "\<forall>r<H. \<forall>c<W. R ! r ! c =
                  F (get_block img (r div bs * bs) (c div bs * bs) bs) ! (r mod bs) ! (c mod bs)"
    and K: "K * bs + bs \<le> H" and L: "L * bs + bs \<le> W"
  shows "get_block R (K * bs) (L * bs) bs = F (get_block img (K * bs) (L * bs) bs)"
proof -
  have s1: "has_shape (get_block R (K * bs) (L * bs) bs) bs bs"
    using R K L by (rule get_block_shape)
  have s2: "has_shape (F (get_block img (K * bs) (L * bs) bs)) bs bs"
    using get_block_shape [OF img K L] by (rule f)
  have "get_block R (K * bs) (L * bs) bs ! k ! l = F (get_block img (K * bs) (L * bs) bs) ! k ! l"
    if kl: "k < bs" "l < bs" for k l
  proof -
    have r: "K * bs + k < H" and c: "L * bs + l < W" using K L kl by simp_all
    have "get_block R (K * bs) (L * bs) bs ! k ! l = R ! (K * bs + k) ! (L * bs + l)"
      using R K L kl by (rule get_block_nth)
    also have "\<dots> = F (get_block img ((K * bs + k) div bs * bs) ((L * bs + l) div bs * bs) bs)
                       ! ((K * bs + k) mod bs) ! ((L * bs + l) mod bs)"
      using e r c by blast
    finally show ?thesis
      by (simp only: block_start_index [OF bs kl(1)] block_start_index [OF bs kl(2)])
  qed
  then show ?thesis using grid_eq_iff [OF s1 s2] by blast
qed

lemma shift_back: "arr_map (\<lambda>x. x + 128) (arr_map (\<lambda>x. x - 128) b) = (b :: grid)"
  by (simp add: arr_map_def comp_def)

lemma block_dct_entries:
  assumes bs: "0 < bs" and x: "has_shape x h w" and dv: "bs dvd h" "bs dvd w"
  shows "\<exists>Y. block_dct x bs = Inr Y \<and> has_shape Y h w
           \<and> (\<forall>r<h. \<forall>c<w. Y ! r ! c =
                  DCT2D (arr_map (\<lambda>v. v - 128) (get_block x (r div bs * bs) (c div bs * bs) bs))
                    ! (r mod bs) ! (c mod bs))"
proof -
  let ?F = "\<lambda>b. DCT2D (arr_map (\<lambda>v. v - 128) b)"
  let ?f = "\<lambda>b. Inr (?F b) :: py_error + grid"
  have f: "\<And>b. has_shape b bs bs \<Longrightarrow> ?f b = Inr (?F b) \<and> has_shape (?F b) bs bs"
    using DCT2D_entries(1) [OF has_shape_arr_map _, of _ bs] bs by simp
  obtain Y where Y: "block_loop bs ?f x (zeros_like x) = Inr Y" "has_shape Y h w"
    and e: "\<forall>r<h. \<forall>c<w. Y ! r ! c =
                  ?F (get_block x (r div bs * bs) (c div bs * bs) bs) ! (r mod bs) ! (c mod bs)"
    using block_loop_entries [of bs ?f ?F x h w "zeros_like x", OF f x bs dv zeros_like_shape [OF x]]
    by blast
  have cr: "crop Y (height x) (width x) = Y"
    using crop_same [OF Y(2)] same_dims [OF Y(2) x] by simp
  have "block_dct x bs = Inr Y"
    using bs Y(1) cr no_padding [OF x dv] by (simp add: block_dct_def)
  then show ?thesis using Y(2) e by blast
qed

lemma block_idct_of_dct:
  assumes bs: "0 < bs" and x: "has_shape x h w" and dv: "bs dvd h" "bs dvd w"
    and Y: "has_shape Y h w"
    and e: "\<forall>r<h. \<forall>c<w. Y ! r ! c =
                  DCT2D (arr_map (\<lambda>v. v - 128) (get_block x (r div bs * bs) (c div bs * bs) bs))
                    ! (r mod bs) ! (c mod bs)"
  shows "block_idct Y bs = Inr (np_clip x 0 255)"
proof -
  let ?F1 = "\<lambda>b. DCT2D (arr_map (\<lambda>v. v - 128) b)"
  let ?F = "\<lambda>b. arr_map (\<lambda>v. v + 128) (IDCT2D b)"
  let ?f = "\<lambda>b. Inr (?F b) :: py_error + grid"
  have f1: "\<And>b. has_shape b bs bs \<Longrightarrow> has_shape (?F1 b) bs bs"
    using DCT2D_entries(1) [OF has_shape_arr_map _, of _ bs] bs by simp
  have f: "\<And>b. has_shape b bs bs \<Longrightarrow> ?f b = Inr (?F b) \<and> has_shape (?F b) bs bs"
    using IDCT2D_entries(1) [of _ bs] bs by (simp add: has_shape_arr_map)
  obtain R where R: "block_loop bs ?f Y (zeros_like Y) = Inr R" "has_shape R h w"
    and re: "\<forall>r<h. \<forall>c<w. R ! r ! c =
                  ?F (get_block Y (r div bs * bs) (c div bs * bs) bs) ! (r mod bs) ! (c mod bs)"
    using block_loop_entries [of bs ?f ?F Y h w "zeros_like Y", OF f Y bs dv zeros_like_shape [OF Y]]
    by blast
  have "R ! r ! c = x ! r ! c" if rc: "r < h" "c < w" for r c
  proof -
    let ?bx = "get_block x (r div bs * bs) (c div bs * bs) bs"
    have kr: "r div bs \<in> set [0..<h div bs]" using bs dv(1) rc(1) by (rule block_index_in_range)
    have kc: "c div bs \<in> set [0..<w div bs]" using bs dv(2) rc(2) by (rule block_index_in_range)
    have br: "r div bs * bs + bs \<le> h" using block_index_bound [OF bs dv(1)] kr by simp
    have bc: "c div bs * bs + bs \<le> w" using block_index_bound [OF bs dv(2)] kc by simp
    have bx: "has_shape ?bx bs bs" and bxe: "?bx ! (r mod bs) ! (c mod bs) = x ! r ! c"
      using block_entry_back [OF x bs dv rc] by simp_all
    have sh: "has_shape (arr_map (\<lambda>v. v - 128) ?bx) bs bs" using bx by (rule has_shape_arr_map)
    have "get_block Y (r div bs * bs) (c div bs * bs) bs = ?F1 ?bx"
      using block_of_result [of bs ?F1 x h w Y "r div bs" "c div bs", OF f1 x Y bs e br bc] .
    then have "?F (get_block Y (r div bs * bs) (c div bs * bs) bs)
               = arr_map (\<lambda>v. v + 128) (IDCT2D (DCT2D (arr_map (\<lambda>v. v - 128) ?bx)))" by simp
    also have "\<dots> = ?bx" by (simp only: IDCT2D_DCT2D [OF sh bs] shift_back)
    finally have "?F (get_block Y (r div bs * bs) (c div bs * bs) bs) = ?bx" .
    moreover have "R ! r ! c = ?F (get_block Y (r div bs * bs) (c div bs * bs) bs) ! (r mod bs) ! (c mod bs)"
      using re rc by blast
    ultimately show ?thesis using bxe by simp
  qed
  then have Rx: "R = x" using grid_eq_iff [OF R(2) x] by blast
  have cr: "crop R (height Y) (width Y) = R"
    using crop_same [OF R(2)] same_dims [OF R(2) Y] by simp
  show ?thesis
    using bs R(1) cr Rx no_padding [OF Y dv] by (simp add: block_idct_def)
qed

text \<open>The round trip returns the input clipped to the sample range.\<close>

lemma round_trip_clips:
  assumes "0 < bs" "has_shape x h w" "bs dvd h" "bs dvd w"
  shows "dct_round_trip x bs = Inr (np_clip x 0 255)"
proof -
  obtain Y where Y: "block_dct x bs = Inr Y" "has_shape Y h w"
    and e: "\<forall>r<h. \<forall>c<w. Y ! r ! c =
                  DCT2D (arr_map (\<lambda>v. v - 128) (get_block x (r div bs * bs) (c div bs * bs) bs))
                    ! (r mod bs) ! (c mod bs)"
    using block_dct_entries [OF assms] by blast
  have "block_idct Y bs = Inr (np_clip x 0 255)"
    using assms Y(2) e by (rule block_idct_of_dct)
  then show ?thesis using Y(1) by (simp add: dct_round_trip_def)
qed

lemma np_clip_in_range:
  fixes x :: grid
  assumes "\<forall>r \<in> set x. \<forall>v \<in> set r. lo \<le> v \<and> v \<le> hi"
  shows "np_clip x lo hi = x"
proof -
  have "map (\<lambda>v. min (max v lo) hi) r = r" if "r \<in> set x" for r
  proof (rule map_idI)
    fix v assume "v \<in> set r"
    then have "lo \<le> v \<and> v \<le> hi" using assms that by blast
    then show "min (max v lo) hi = v" by linarith
  qed
  then show ?thesis by (simp add: np_clip_def arr_map_def map_idI)
qed

text \<open>
  C2 as stated (for every real-valued array whose sides are multiples of the block size
  the round trip returns the array) does not hold: \<open>block_idct\<close> clips its result to
  \<open>[0, 255]\<close>, so the 8 by 8 array of samples 300 comes back as the array of samples 255.
\<close>

theorem dct_round_trip_counterexample:
  "dct_round_trip (replicate 8 (replicate 8 300)) 8 = Inr (replicate 8 (replicate 8 255))
   \<and> dct_round_trip (replicate 8 (replicate 8 300)) 8 \<noteq> Inr (replicate 8 (replicate 8 300))"
proof -
  have s: "has_shape (replicate 8 (replicate 8 (300::real))) 8 8"
    by (simp add: has_shape_def list_all_iff)
  have "dct_round_trip (replicate 8 (replicate 8 300)) 8
        = Inr (np_clip (replicate 8 (replicate 8 300)) 0 255)"
    using round_trip_clips [OF _ s] by simp
  then show ?thesis by (simp add: np_clip_def arr_map_def)
qed

text \<open>
  C2, amended. For every array whose height and width are multiples of the block size
  (a positive number), the round trip succeeds and returns the array clipped to
  \<open>[0, 255]\<close>; so for an array whose samples lie in \<open>[0, 255]\<close> it returns the array
  itself (in exact arithmetic, no quantization applied).
\<close>

theorem dct_round_trip_exact:
  assumes "0 < bs" "has_shape x h w" "bs dvd h" "bs dvd w"
  shows "dct_round_trip x bs = Inr (np_clip x 0 255)
       \<and> ((\<forall>r \<in> set x. \<forall>v \<in> set r. 0 \<le> v \<and> v \<le> 255) \<longrightarrow> dct_round_trip x bs = Inr x)"
  using round_trip_clips [OF assms] np_clip_in_range [of x 0 255] by simp

theorem dct_round_trip_exact_witness:
  "dct_round_trip [[0, 64], [128, 255]] 2 = Inr [[0, 64], [128, 255]]"
proof -
  have s: "has_shape [[0, 64], [128, 255 :: real]] 2 2"
    by (simp add: has_shape_def)
  have r: "\<forall>r \<in> set [[0, 64], [128, 255 :: real]]. \<forall>v \<in> set r. 0 \<le> v \<and> v \<le> 255"
    by simp
  have p: "(0::nat) < 2" "(2::nat) dvd 2" by simp_all
  show ?thesis using dct_round_trip_exact [OF p(1) s p(2) p(2)] r by blast
qed

section \<open>Facts about threshold\_coeffs\<close>











section \<open>Facts about estimate\_noise\_sigma\<close>

lemma count_prefix:
  assumes "\<forall>x \<in> set (take k ys). P x" "k \<le> length ys"
  shows "k \<le> length (filter P ys)"
proof -
  have "filter P ys = filter P (take k ys) @ filter P (drop k ys)"
    by (metis append_take_drop_id filter_append)
  moreover have "filter P (take k ys) = take k ys" using assms(1) by simp
  ultimately show ?thesis using assms(2) by simp
qed

lemma count_suffix:
  assumes "\<forall>x \<in> set (drop k ys). P x"
  shows "length ys - k \<le> length (filter P ys)"
proof -
  have "filter P ys = filter P (take k ys) @ filter P (drop k ys)"
    by (metis append_take_drop_id filter_append)
  moreover have "filter P (drop k ys) = drop k ys" using assms by simp
  ultimately show ?thesis by simp
qed

lemma sorted_below:
  assumes "sorted ys" "j < length ys" "ys ! j \<le> (v::real)"
  shows "Suc j \<le> length (filter (\<lambda>x. x \<le> v) ys)"
proof -
  have "\<forall>x \<in> set (take (Suc j) ys). x \<le> v"
  proof
    fix x assume "x \<in> set (take (Suc j) ys)"
    then obtain i where i: "i < Suc j" "i < length ys" "x = ys ! i"
      by (auto simp: in_set_conv_nth)
    then have "ys ! i \<le> ys ! j" using assms by (intro sorted_nth_mono) simp_all
    then show "x \<le> v" using i assms(3) by simp
  qed
  then show ?thesis using assms(2) by (intro count_prefix) simp_all
qed

lemma sorted_above:
  assumes "sorted ys" "j < length ys" "(v::real) \<le> ys ! j"
  shows "length ys - j \<le> length (filter (\<lambda>x. v \<le> x) ys)"
proof -
  have "\<forall>x \<in> set (drop j ys). v \<le> x"
  proof
    fix x assume "x \<in> set (drop j ys)"
    then obtain i where i: "i < length ys - j" "x = ys ! (j + i)"
      by (auto simp: in_set_conv_nth)
    then have "ys ! j \<le> ys ! (j + i)" using assms by (intro sorted_nth_mono) simp_all
    then show "v \<le> x" using i assms(3) by simp
  qed
  then show ?thesis by (rule count_suffix)
qed

lemma filter_length_sort: "length (filter P (sort xs)) = length (filter P xs)"
  by (simp add: filter_sort)

text \<open>\<open>np.median\<close> of a non-empty list is a median of the list.\<close>

lemma np_median_is_median:
  assumes "xs \<noteq> []"
  shows "\<exists>m. np_median xs = Fin m \<and> is_median m xs"
proof -
  define n where "n = length xs"
  define ys where "ys = sort xs"
  have n: "0 < n" using assms by (simp add: n_def)
  have s: "sorted ys" and l: "length ys = n" by (simp_all add: ys_def n_def)
  have cnt: "length (filter P ys) = length (filter P xs)" for P
    unfolding ys_def by (rule filter_length_sort)
  show ?thesis
  proof (cases "odd n")
    case True
    define m where "m = ys ! (n div 2)"
    have j: "n div 2 < length ys" using n l by simp
    have "Suc (n div 2) \<le> length (filter (\<lambda>x. x \<le> m) ys)"
      using s j by (rule sorted_below) (simp add: m_def)
    moreover have "length ys - n div 2 \<le> length (filter (\<lambda>x. m \<le> x) ys)"
      using s j by (rule sorted_above) (simp add: m_def)
    ultimately have "is_median m xs"
      using l True by (simp add: is_median_def cnt n_def [symmetric]) presburger
    moreover have "np_median xs = Fin m"
      using n True by (simp add: np_median_def Let_def n_def [symmetric] ys_def [symmetric] m_def)
    ultimately show ?thesis by blast
  next
    case False
    define m where "m = (ys ! (n div 2 - 1) + ys ! (n div 2)) / 2"
    have q: "0 < n div 2" using n False by presburger
    have j1: "n div 2 - 1 < length ys" and j2: "n div 2 < length ys" using n l by simp_all
    have "ys ! (n div 2 - 1) \<le> ys ! (n div 2)" using s j2 by (intro sorted_nth_mono) simp_all
    then have b: "ys ! (n div 2 - 1) \<le> m" "m \<le> ys ! (n div 2)" by (simp_all add: m_def)
    have "Suc (n div 2 - 1) \<le> length (filter (\<lambda>x. x \<le> m) ys)"
      using s j1 b(1) by (rule sorted_below)
    moreover have "length ys - n div 2 \<le> length (filter (\<lambda>x. m \<le> x) ys)"
      using s j2 b(2) by (rule sorted_above)
    ultimately have "is_median m xs"
      using l False q by (simp add: is_median_def cnt n_def [symmetric]) presburger
    moreover have "np_median xs = Fin m"
      using n False by (simp add: np_median_def Let_def n_def [symmetric] ys_def [symmetric] m_def)
    ultimately show ?thesis by blast
  qed
qed

lemma np_median_value:
  assumes "xs \<noteq> []"
  shows "np_median xs = Fin (median_value xs)"
proof (cases "odd (length xs)")
  case True
  then have "(length xs - 1) div 2 = length xs div 2" by presburger
  then show ?thesis using assms True by (simp add: np_median_def median_value_def Let_def)
next
  case False
  then have "(length xs - 1) div 2 = length xs div 2 - 1" by presburger
  then show ?thesis using assms False by (simp add: np_median_def median_value_def Let_def)
qed

lemma median_value_is_median:
  assumes "xs \<noteq> []"
  shows "is_median (median_value xs) xs"
  using np_median_is_median [OF assms] np_median_value [OF assms] by auto

text \<open>
  C6 as stated does not hold: the function takes the median of the absolute values of
  the \<open>HH\<close> entries, not the median of their absolute deviations from the median of
  \<open>HH\<close>. When the library call returns the diagonal subband \<open>[[1, 2, 3]]\<close>, the median
  absolute deviation is 1 (the deviations from the median 2 are 1, 0, 1), and
  \<open>estimate_noise_sigma\<close> returns \<open>2 / 0.6745\<close>, not \<open>1 / 0.6745\<close>.
\<close>

theorem estimate_noise_sigma_counterexample:
  "estimate_noise_sigma (\<lambda>img wavelet level. Inr ([[6]], [([[0]], [[0]], [[1, 2, 3]])])) [[1, 2], [3, 4]]
     = Inr (Fin (2 / 0.6745))
   \<and> mad_value (concat [[1, 2, 3]]) = 1
   \<and> estimate_noise_sigma (\<lambda>img wavelet level. Inr ([[6]], [([[0]], [[0]], [[1, 2, 3]])])) [[1, 2], [3, 4]]
       \<noteq> Inr (Fin (mad_value (concat [[1, 2, 3]]) * (1 / 0.6745)))"
proof -
  have s: "sort [1, 2, 3 :: real] = [1, 2, 3]" "sort [1, 0, 1 :: real] = [0, 1, 1]" by simp_all
  have m: "median_value [1, 2, 3] = 2"
    by (simp add: median_value_def Let_def s)
  have d: "mad_value [1, 2, 3] = 1"
    by (simp add: mad_value_def m) (simp add: median_value_def Let_def s)
  have n: "np_median [1, 2, 3] = Fin 2"
    using np_median_value [of "[1, 2, 3]"] m by simp
  have e: "estimate_noise_sigma (\<lambda>img wavelet level. Inr ([[6]], [([[0]], [[0]], [[1, 2, 3]])])) [[1, 2], [3, 4]]
             = Inr (Fin (2 / 0.6745))"
    by (simp add: estimate_noise_sigma_def arr_map_def n)
  show ?thesis using e d by simp
qed

text \<open>
  C6, amended. Whatever single-level decomposition the library returns for the image
  with wavelet \<open>db4\<close>, \<open>estimate_noise_sigma\<close> takes the diagonal subband \<open>HH\<close> of its
  first (finest) detail triple and, when \<open>HH\<close> has entries, returns the median of the
  absolute values of the entries of \<open>HH\<close> (the mean of the two middle absolute values
  for an even count) scaled by \<open>1/0.6745\<close>; the entries are not centred at their median
  first. The value is computed in real arithmetic.
\<close>

theorem estimate_noise_sigma_median_abs:
  assumes "wavedec2 img ''db4'' 1 = Inr (c0, (lh, hl, hh) # rest)" and "concat hh \<noteq> []"
  shows "estimate_noise_sigma wavedec2 img
           = Inr (Fin (median_value (map abs (concat hh)) * (1 / 0.6745)))
       \<and> is_median (median_value (map abs (concat hh))) (map abs (concat hh))"
proof -
  have c: "concat (arr_map abs hh) = map abs (concat hh)"
    by (simp add: arr_map_def map_concat)
  have ne: "map abs (concat hh) \<noteq> []" using assms(2) by simp
  have "estimate_noise_sigma wavedec2 img = Inr (Fin (median_value (map abs (concat hh)) / 0.6745))"
    using assms(1) np_median_value [OF ne] by (simp add: estimate_noise_sigma_def c)
  then show ?thesis using median_value_is_median [OF ne] by simp
qed

theorem estimate_noise_sigma_median_abs_witness:
  "estimate_noise_sigma (\<lambda>img wavelet level. Inr ([[7]], [([[1]], [[2]], [[3, - 1], [- 2, 4]])])) [[0]]
       = Inr (Fin ((5 / 2) * (1 / 0.6745)))
   \<and> median_value (map abs (concat [[3, - 1], [- 2, 4]])) = 5 / 2
   \<and> is_median (5 / 2) (map abs (concat [[3, - 1], [- 2, 4]]))"
proof -
  let ?lib = "\<lambda>(img::grid) (wavelet::string) (level::int).
                (Inr ([[7]], [([[1]], [[2]], [[3, - 1], [- 2, 4]])]) :: py_error + pywt_coeffs)"
  have b: "concat [[3, - 1], [- 2, 4 :: real]] \<noteq> []" by simp
  have m: "median_value (map abs (concat [[3, - 1], [- 2, 4]])) = 5 / 2"
    by (simp add: median_value_def Let_def)
  have "estimate_noise_sigma ?lib [[0]]
           = Inr (Fin (median_value (map abs (concat [[3, - 1], [- 2, 4]])) * (1 / 0.6745)))
       \<and> is_median (median_value (map abs (concat [[3, - 1], [- 2, 4]])))
           (map abs (concat [[3, - 1], [- 2, 4]]))"
    using estimate_noise_sigma_median_abs
      [of ?lib "[[0]]" "[[7]]" "[[1]]" "[[2]]" "[[3, - 1], [- 2, 4]]" "[]"] b by simp
  then show ?thesis unfolding m by simp
qed

section \<open>Facts about DWT2D and IDWT2D\<close>

lemma records_details:
  assumes "length ns = length ds"
  shows "map (\<lambda>c. (LH c, HL c, HH c))
           (map (\<lambda>(i, (lh, hl, hh)). \<lparr>LL = g i, LH = lh, HL = hl, HH = hh\<rparr>) (zip ns ds)) = ds"
  using assms
proof (induction ns ds rule: list_induct2)
  case Nil
  then show ?case by simp
next
  case (Cons n ns d ds)
  obtain lh hl hh where d: "d = (lh, hl, hh)" by (cases d) auto
  show ?case using Cons.IH by (simp add: d)
qed

lemma update_LL_details:
  "map (\<lambda>c. (LH c, HL c, HH c)) (rs[0 := (rs ! 0)\<lparr>LL := v\<rparr>]) = map (\<lambda>c. (LH c, HL c, HH c)) rs"
  by (cases rs) simp_all

lemma upt_from_one: "length [1..<Suc n] = n"
  by simp

text \<open>The records built from a coefficient structure carry its detail triples and its LL.\<close>

lemma convert_coeffs_details:
  "map (\<lambda>c. (LH c, HL c, HH c)) (convert_coeffs (c0, details)) = details"
proof -
  define result where "result = map (\<lambda>(i, (lh, hl, hh)).
                             \<lparr>LL = (if i = (1::nat) then Some c0 else None),
                              LH = lh, HL = hl, HH = hh\<rparr>)
                          (zip [1..<Suc (length details)] details)"
  have c: "convert_coeffs (c0, details)
           = (if result \<noteq> [] then result[0 := (result ! 0)\<lparr>LL := Some c0\<rparr>] else result)"
    unfolding convert_coeffs_def result_def by (simp only: prod.case Let_def)
  have "map (\<lambda>c. (LH c, HL c, HH c)) result = details"
    unfolding result_def by (rule records_details) (rule upt_from_one)
  then show ?thesis unfolding c by (cases "result = []") (simp_all add: update_LL_details)
qed

lemma convert_coeffs_length: "length (convert_coeffs (c0, details)) = length details"
proof -
  have "length (map (\<lambda>c. (LH c, HL c, HH c)) (convert_coeffs (c0, details))) = length details"
    by (simp only: convert_coeffs_details)
  then show ?thesis by (simp only: length_map)
qed

lemma convert_coeffs_LL:
  assumes "convert_coeffs (c0, details) = r # rs"
  shows "LL r = Some c0"
proof -
  define result where "result = map (\<lambda>(i, (lh, hl, hh)).
                             \<lparr>LL = (if i = (1::nat) then Some c0 else None),
                              LH = lh, HL = hl, HH = hh\<rparr>)
                          (zip [1..<Suc (length details)] details)"
  have c: "convert_coeffs (c0, details)
           = (if result \<noteq> [] then result[0 := (result ! 0)\<lparr>LL := Some c0\<rparr>] else result)"
    unfolding convert_coeffs_def result_def by (simp only: prod.case Let_def)
  show ?thesis
  proof (cases result)
    case Nil
    then have "convert_coeffs (c0, details) = []" unfolding c by simp
    then show ?thesis using assms by simp
  next
    case (Cons a list)
    then have "convert_coeffs (c0, details) = a\<lparr>LL := Some c0\<rparr> # list" unfolding c by simp
    then have "r = a\<lparr>LL := Some c0\<rparr>" using assms by simp
    then show ?thesis by simp
  qed
qed


lemma IDWT2D_of_DWT2D:
  assumes "wavedec2 img wavelet level = Inr (c0, d # ds)"
  shows "\<exists>rs. DWT2D wavedec2 img wavelet level = Inr rs
          \<and> IDWT2D waverec2 rs wavelet = waverec2 (Some c0, d # ds) wavelet"
proof -
  have run: "DWT2D wavedec2 img wavelet level = Inr (convert_coeffs (c0, d # ds))"
    unfolding DWT2D_def assms by simp
  have m: "map (\<lambda>c. (LH c, HL c, HH c)) (convert_coeffs (c0, d # ds)) = d # ds"
    by (rule convert_coeffs_details)
  then obtain r rs where c: "convert_coeffs (c0, d # ds) = r # rs"
    by (cases "convert_coeffs (c0, d # ds)") auto
  have "LL r = Some c0" using c by (rule convert_coeffs_LL)
  then have "IDWT2D waverec2 (convert_coeffs (c0, d # ds)) wavelet = waverec2 (Some c0, d # ds) wavelet"
    using m unfolding c by (simp add: IDWT2D_def)
  then show ?thesis using run by simp
qed

text \<open>
  C8 as stated (the decomposition fails with InvalidParameter whenever the level exceeds
  \<open>floor(log2(min(height, width))) - 1\<close>) does not hold of \<open>DWT2D\<close>: the function has no
  level check and returns a pyramid whenever the library call returns one. For a 2 by 2
  array the bound is 0, and with a library call that returns the one-level Haar
  coefficients of \<open>[[1, 2], [3, 4]]\<close> the call with level 1 returns one record.
\<close>

theorem DWT2D_level_counterexample:
  "\<lfloor>log 2 (real (min (2::nat) 2))\<rfloor> - 1 < (1::int)
   \<and> DWT2D (\<lambda>img wavelet level. Inr ([[5]], [([[- 2]], [[- 1]], [[0]])])) [[1, 2], [3, 4]] ''haar'' 1
       = Inr [\<lparr>LL = Some [[5]], LH = [[- 2]], HL = [[- 1]], HH = [[0]]\<rparr>]"
  by (simp add: DWT2D_def convert_coeffs_def)

text \<open>
  C8, amended. \<open>DWT2D\<close> performs no level check of its own: for every array, wavelet name
  and level it fails exactly when the library call \<open>pywt.wavedec2\<close> fails, with that
  call's error, and when the library returns a coefficient structure it returns one
  record per detail level.
\<close>

theorem DWT2D_passes_library_result:
  "(DWT2D wavedec2 img wavelet level = Inl e) = (wavedec2 img wavelet level = Inl e)
   \<and> (\<forall>c0 details. wavedec2 img wavelet level = Inr (c0, details) \<longrightarrow>
         (\<exists>result. DWT2D wavedec2 img wavelet level = Inr result
                    \<and> length result = length details))"
proof (cases "wavedec2 img wavelet level")
  case (Inl e')
  then show ?thesis by (simp add: DWT2D_def)
next
  case (Inr coeffs)
  obtain c0 details where c: "coeffs = (c0, details)" by (cases coeffs) auto
  show ?thesis unfolding DWT2D_def Inr c by (simp add: convert_coeffs_length)
qed

theorem DWT2D_passes_library_result_witness:
  "(DWT2D (\<lambda>img wavelet level. Inl ValueError) [[1, 2], [3, 4]] ''haar'' 9 = Inl ValueError)
   \<and> (\<exists>result. DWT2D (\<lambda>img wavelet level. Inr ([[5]], [([[- 2]], [[- 1]], [[0]])]))
                   [[1, 2], [3, 4]] ''haar'' 1 = Inr result
                \<and> length result = 1)"
proof -
  define ok :: wavedec2_fn where "ok = (\<lambda>img wavelet level. Inr ([[5]], [([[- 2]], [[- 1]], [[0]])]))"
  define bad :: wavedec2_fn where "bad = (\<lambda>img wavelet level. Inl ValueError)"
  have b: "bad [[1, 2], [3, 4]] ''haar'' 9 = Inl ValueError" by (simp add: bad_def)
  have o: "ok [[1, 2], [3, 4]] ''haar'' 1 = Inr ([[5]], [([[- 2]], [[- 1]], [[0]])])"
    by (simp add: ok_def)
  have "DWT2D bad [[1, 2], [3, 4]] ''haar'' 9 = Inl ValueError"
    using DWT2D_passes_library_result [of bad "[[1, 2], [3, 4]]" "''haar''" 9 ValueError] b
    by (simp only:)
  moreover have "\<exists>result. DWT2D ok [[1, 2], [3, 4]] ''haar'' 1 = Inr result \<and> length result = 1"
    using DWT2D_passes_library_result [of ok "[[1, 2], [3, 4]]" "''haar''" 1 ValueError] o
    by simp
  ultimately show ?thesis unfolding ok_def bad_def by (rule conjI)
qed

end
